theory Spec2Isabelle
  imports Main
begin

section \<open>The variable graph of fipy/variables/variable.py\<close>

text \<open>
  A \<open>Variable\<close> object is a node of a record type; the objects live in an arena
  indexed by references. A strong reference and a weak reference are both an index;
  a weak reference \<open>sub()\<close> resolves to \<open>None\<close> exactly when the arena slot has been
  reclaimed. The fields are those \<open>Variable.__init__\<close> sets: \<open>value\<close> (here \<open>val\<close>),
  \<open>stale\<close>, \<open>_cached\<close>, \<open>requiredVariables\<close> and \<open>subscribedVariables\<close>; \<open>cls\<close> is
  the object's class and \<open>opShape\<close> the attribute an operator variable is given at
  construction (absent, \<open>None\<close>, on every other object). Values are arrays with their
  shape; units, names and the inlining flags play no part in the graph and are left out.
  A method is only ever called on a live object: where a model function is given a
  reference that does not resolve, it leaves the heap as it is (and answers \<open>TypeError\<close>
  where it has a result).
\<close>

type_synonym ref = nat

datatype ndarray = NDArray (shape: "nat list") (elems: "int list")

text \<open>The classes of the objects: \<open>Variable\<close> itself, \<open>_Constant\<close> (the wrapper of a
  non-\<open>Variable\<close> operand) and the operator class \<open>_OperatorVariableClass(baseClass)\<close>
  derived from a base class.\<close>

datatype vclass = VariableC | ConstantC | OperatorC vclass

record node =
  val :: "ndarray option"
  stale :: bool
  cached :: bool
  requiredVariables :: "ref list"
  subscribedVariables :: "ref list"
  cls :: vclass
  opShape :: "nat list option"

type_synonym heap = "node option list"

definition deref :: "heap \<Rightarrow> ref \<Rightarrow> node option" where
  "deref h r = (if r < length h then h ! r else None)"

definition alive :: "heap \<Rightarrow> ref \<Rightarrow> bool" where
  "alive h r = (deref h r \<noteq> None)"

definition isStale :: "heap \<Rightarrow> ref \<Rightarrow> bool" where
  "isStale h r = (case deref h r of None \<Rightarrow> False | Some n \<Rightarrow> stale n)"

definition isFresh :: "heap \<Rightarrow> ref \<Rightarrow> bool" where
  "isFresh h r = (case deref h r of None \<Rightarrow> False | Some n \<Rightarrow> \<not> stale n)"

text \<open>An attribute assignment \<open>obj.field = e\<close> on the object behind a reference.\<close>

definition modify :: "heap \<Rightarrow> ref \<Rightarrow> (node \<Rightarrow> node) \<Rightarrow> heap" where
  "modify h r f = (case deref h r of None \<Rightarrow> h | Some n \<Rightarrow> h[r := Some (f n)])"

text \<open>Garbage collection of an object: its slot is emptied, so every weak reference
  to it stops resolving.\<close>

definition reclaim :: "heap \<Rightarrow> ref \<Rightarrow> heap" where
  "reclaim h r = h[r := None]"

subsection \<open>getSubscribedVariables\<close>

text \<open>
  \<^verbatim>\<open>
  def getSubscribedVariables(self):
      self.subscribedVariables = [sub for sub in self.subscribedVariables if sub() is not None]
      return self.subscribedVariables
  \<close>
  \<open>liveSubs\<close> is the list comprehension; \<open>getSubscribedVariables\<close> stores it and
  returns it.
\<close>

definition liveSubs :: "heap \<Rightarrow> ref \<Rightarrow> ref list" where
  "liveSubs h self =
     (case deref h self of
        None \<Rightarrow> []
      | Some n \<Rightarrow> filter (\<lambda>sub. alive h sub) (subscribedVariables n))"

definition getSubscribedVariables :: "heap \<Rightarrow> ref \<Rightarrow> heap \<times> ref list" where
  "getSubscribedVariables h self =
     (let live = liveSubs h self
      in (modify h self (\<lambda>n. n\<lparr>subscribedVariables := live\<rparr>), live))"

subsection \<open>Staleness propagation\<close>

text \<open>
  \<^verbatim>\<open>
  def __markStale(self):
      for subscriber in self.getSubscribedVariables():
          if subscriber() is not None:
              subscriber()._markStale()

  def _markFresh(self):
      self.stale = 0
      self.__markStale()

  def _markStale(self):
      if not self.stale:
          self.stale = 1
          self.__markStale()
  \<close>
  The loop of \<open>__markStale\<close> calls \<open>_markStale\<close>, which runs the loop again for the
  subscriber: \<open>markStaleAll h ss\<close> is the run of the subscribers still to be visited,
  the pending rest of every enclosing loop appended behind those of the innermost
  one. A subscriber that is dead or already stale is passed over; a fresh one gets
  \<open>stale = 1\<close>, its subscriber list is compacted and its live subscribers are visited
  before the rest. Each visit that does anything turns a fresh node stale, which is
  why the recursion ends.
\<close>

definition freshBit :: "node option \<Rightarrow> nat" where
  "freshBit x = (case x of None \<Rightarrow> 0 | Some n \<Rightarrow> if stale n then 0 else 1)"

definition countFresh :: "heap \<Rightarrow> nat" where
  "countFresh h = sum_list (map freshBit h)"

lemma deref_modify:
  "deref (modify h r f) q = (if q = r then map_option f (deref h r) else deref h q)"
  by (auto simp: modify_def deref_def split: option.splits)

lemma length_modify: "length (modify h r f) = length h"
  by (simp add: modify_def split: option.splits)

lemma countFresh_modify:
  assumes "deref h r = Some n"
  shows "countFresh (modify h r f) + freshBit (Some n) = countFresh h + freshBit (Some (f n))"
proof -
  from assms have r: "r < length h" and hr: "h ! r = Some n"
    by (simp_all add: deref_def split: if_splits)
  have "freshBit (h ! r) \<le> sum_list (map freshBit h)"
    using r by (simp add: member_le_sum_list)
  then show ?thesis
    using assms r hr by (simp add: modify_def countFresh_def map_update sum_list_update)
qed

lemma countFresh_step:
  assumes "isFresh h s"
    and "(h', subs) = getSubscribedVariables (modify h s (\<lambda>n. n\<lparr>stale := True\<rparr>)) s"
  shows "countFresh h' < countFresh h"
proof -
  from assms(1) obtain n where n: "deref h s = Some n" "\<not> stale n"
    by (auto simp: isFresh_def split: option.splits)
  let ?h1 = "modify h s (\<lambda>n. n\<lparr>stale := True\<rparr>)"
  have c1: "countFresh ?h1 + 1 = countFresh h"
    using countFresh_modify [OF n(1), of "\<lambda>n. n\<lparr>stale := True\<rparr>"] n(2)
    by (simp add: freshBit_def)
  have d1: "deref ?h1 s = Some (n\<lparr>stale := True\<rparr>)"
    using n(1) by (simp add: deref_modify)
  have h': "h' = modify ?h1 s (\<lambda>n. n\<lparr>subscribedVariables := liveSubs ?h1 s\<rparr>)"
    using assms(2) by (simp add: getSubscribedVariables_def Let_def)
  have "countFresh h' = countFresh ?h1"
    using countFresh_modify [OF d1, of "\<lambda>n. n\<lparr>subscribedVariables := liveSubs ?h1 s\<rparr>"]
    by (simp add: h' freshBit_def)
  with c1 show ?thesis by simp
qed

function markStaleAll :: "heap \<Rightarrow> ref list \<Rightarrow> heap" where
  "markStaleAll h [] = h"
| "markStaleAll h (s # ss) =
     (if isFresh h s then
        (let (h', subs) = getSubscribedVariables (modify h s (\<lambda>n. n\<lparr>stale := True\<rparr>)) s
         in markStaleAll h' (subs @ ss))
      else markStaleAll h ss)"
  by pat_completeness auto
termination
  by (relation "measures [\<lambda>(h, ss). countFresh h, \<lambda>(h, ss). length ss]")
     (auto dest: countFresh_step)

text \<open>The same run, recording the nodes whose body \<open>self.stale = 1; self.__markStale()\<close>
  is executed, in the order of execution.\<close>

function markStaleVisits :: "heap \<Rightarrow> ref list \<Rightarrow> ref list" where
  "markStaleVisits h [] = []"
| "markStaleVisits h (s # ss) =
     (if isFresh h s then
        (let (h', subs) = getSubscribedVariables (modify h s (\<lambda>n. n\<lparr>stale := True\<rparr>)) s
         in s # markStaleVisits h' (subs @ ss))
      else markStaleVisits h ss)"
  by pat_completeness auto
termination
  by (relation "measures [\<lambda>(h, ss). countFresh h, \<lambda>(h, ss). length ss]")
     (auto dest: countFresh_step)

definition private_markStale :: "heap \<Rightarrow> ref \<Rightarrow> heap" where
  "private_markStale h self =
     (let (h', subs) = getSubscribedVariables h self in markStaleAll h' subs)"

definition markFresh :: "heap \<Rightarrow> ref \<Rightarrow> heap" where
  "markFresh h self = private_markStale (modify h self (\<lambda>n. n\<lparr>stale := False\<rparr>)) self"

definition markStale :: "heap \<Rightarrow> ref \<Rightarrow> heap" where
  "markStale h self =
     (if isFresh h self
      then private_markStale (modify h self (\<lambda>n. n\<lparr>stale := True\<rparr>)) self
      else h)"

definition markStale_visits :: "heap \<Rightarrow> ref \<Rightarrow> ref list" where
  "markStale_visits h self = markStaleVisits h [self]"


text \<open>The step of the run at a fresh subscriber: \<open>self.stale = 1\<close> and the compaction
  of its subscriber list by \<open>getSubscribedVariables\<close>.\<close>

definition visit :: "heap \<Rightarrow> ref \<Rightarrow> heap" where
  "visit h s = fst (getSubscribedVariables (modify h s (\<lambda>n. n\<lparr>stale := True\<rparr>)) s)"

subsection \<open>Construction and dependency edges\<close>

text \<open>
  \<open>Variable.__init__\<close> allocates the object (a new slot at the end of the arena), sets
  the value and \<open>_cached\<close>, then \<open>self.stale = 1; self._markFresh()\<close>.
  \<^verbatim>\<open>
  def _requires(self, var):
      if isinstance(var, Variable):
          self.requiredVariables.append(var)
          var._requiredBy(self)
          self._markStale()
      return var

  def _requiredBy(self, var):
      assert isinstance(var, Variable)
      import weakref
      self.subscribedVariables.append(weakref.ref(var))
  \<close>
\<close>

definition newVariable :: "heap \<Rightarrow> vclass \<Rightarrow> ndarray option \<Rightarrow> bool \<Rightarrow> heap \<times> ref" where
  "newVariable h c v cch =
     (let self = length h;
          h1 = h @ [Some \<lparr>val = v, stale = True, cached = cch, requiredVariables = [],
                          subscribedVariables = [], cls = c, opShape = None\<rparr>]
      in (markFresh h1 self, self))"

definition requiredBy :: "heap \<Rightarrow> ref \<Rightarrow> ref \<Rightarrow> heap" where
  "requiredBy h self var =
     modify h self (\<lambda>n. n\<lparr>subscribedVariables := subscribedVariables n @ [var]\<rparr>)"

definition requires :: "heap \<Rightarrow> ref \<Rightarrow> ref \<Rightarrow> heap" where
  "requires h self var =
     (let h1 = modify h self (\<lambda>n. n\<lparr>requiredVariables := requiredVariables n @ [var]\<rparr>);
          h2 = requiredBy h1 var self
      in markStale h2 self)"

definition valOf :: "heap \<Rightarrow> ref \<Rightarrow> ndarray option" where
  "valOf h r = (case deref h r of None \<Rightarrow> None | Some n \<Rightarrow> val n)"

definition requiredVariablesOf :: "heap \<Rightarrow> ref \<Rightarrow> ref list" where
  "requiredVariablesOf h r = (case deref h r of None \<Rightarrow> [] | Some n \<Rightarrow> requiredVariables n)"

definition cachedOf :: "heap \<Rightarrow> ref \<Rightarrow> bool option" where
  "cachedOf h r = map_option cached (deref h r)"

subsection \<open>Reading and writing the value\<close>

text \<open>
  \<open>_cacheAlways\<close> and \<open>_cacheNever\<close> are class attributes, set once from the
  environment and the command line: a configuration.
  \<^verbatim>\<open>
  def _isCached(self):
      return self._cacheAlways or (self._cached and not self._cacheNever)
  \<close>
\<close>

datatype error =
  NotImplemented | TypeError | IndexError | ValueError | EvaluationError | RecursionError

record config =
  cacheAlways :: bool
  cacheNever :: bool

definition isCached :: "config \<Rightarrow> node \<Rightarrow> bool" where
  "isCached cfg n = (cacheAlways cfg \<or> (cached n \<and> \<not> cacheNever cfg))"

text \<open>
  \<open>_setValue\<close> stores \<open>_makeValue(value)\<close>, which returns an array and \<open>None\<close> as they
  are.
  \<^verbatim>\<open>
  def setValue(self, value, unit=None, array=None, where=None):
      if where is not None:
          tmp = numerix.zeros(numerix.getShape(where), numerix.getTypecode(value))
          tmp[:] = value
          tmp = numerix.where(where, tmp, self.getValue())
      else:
          if hasattr(value, 'copy'):
              tmp = value.copy()
          else:
              tmp = value
      self._setValue(value=tmp, unit=unit, array=array)
      self._markFresh()
  \<close>
  \<open>setValue\<close> is the call with the default \<open>where=None\<close>; \<open>setValue_where\<close>, after
  \<open>getValue\<close> below, is the call with a mask.
\<close>

definition setValue_private :: "heap \<Rightarrow> ref \<Rightarrow> ndarray option \<Rightarrow> heap" where
  "setValue_private h self v = modify h self (\<lambda>n. n\<lparr>val := v\<rparr>)"

definition setValue :: "heap \<Rightarrow> ref \<Rightarrow> ndarray \<Rightarrow> heap" where
  "setValue h self v = markFresh (setValue_private h self (Some v)) self"

text \<open>
  \<^verbatim>\<open>
  def getValue(self):
      if self.stale or not self._isCached() or self.value is None:
          value = self._calcValue()
          if self._isCached():
              self._setValue(value=value)
          else:
              self._setValue(value=None)
          self._markFresh()
      else:
          value = self.value
      return value
  \<close>
  \<open>_calcValue\<close> is overridden by the subclasses: it is a parameter, a computation that
  may change the heap (it evaluates operands) and may raise. \<open>Variable._calcValue\<close>
  itself returns \<open>self.value\<close>.
\<close>

type_synonym calc = "heap \<Rightarrow> ref \<Rightarrow> (error + ndarray option) \<times> heap"

definition calcValue :: calc where
  "calcValue h self = (Inr (valOf h self), h)"

definition getValue :: "config \<Rightarrow> calc \<Rightarrow> heap \<Rightarrow> ref \<Rightarrow> (error + ndarray option) \<times> heap" where
  "getValue cfg calc h self =
     (case deref h self of
        None \<Rightarrow> (Inl TypeError, h)
      | Some n \<Rightarrow>
          if stale n \<or> \<not> isCached cfg n \<or> val n = None then
            (case calc h self of
               (Inl e, h1) \<Rightarrow> (Inl e, h1)
             | (Inr v, h1) \<Rightarrow>
                 (let h2 = (if (case deref h1 self of None \<Rightarrow> False | Some n1 \<Rightarrow> isCached cfg n1)
                            then setValue_private h1 self v
                            else setValue_private h1 self None)
                  in (Inr v, markFresh h2 self)))
          else (Inr (val n), h))"

text \<open>
  \<open>setValue\<close> with a mask. The array filled with the new value (\<open>fill\<close>: an array, or
  the error of \<open>tmp[:] = value\<close>) and the selection \<open>numerix.where\<close> between it and the
  current value (\<open>select\<close>) belong to the array library and are parameters. The
  current value is read by \<open>getValue\<close>, which may recompute and mark.
\<close>

definition setValue_where ::
  "config \<Rightarrow> calc \<Rightarrow> error + ndarray \<Rightarrow> (ndarray \<Rightarrow> ndarray option \<Rightarrow> error + ndarray)
     \<Rightarrow> heap \<Rightarrow> ref \<Rightarrow> (error + unit) \<times> heap" where
  "setValue_where cfg calc fill select h self =
     (case fill of
        Inl e \<Rightarrow> (Inl e, h)
      | Inr tmp \<Rightarrow>
          (case getValue cfg calc h self of
             (Inl e, h1) \<Rightarrow> (Inl e, h1)
           | (Inr cur, h1) \<Rightarrow>
               (case select tmp cur of
                  Inl e \<Rightarrow> (Inl e, h1)
                | Inr tmp' \<Rightarrow> (Inr (), markFresh (setValue_private h1 self (Some tmp')) self))))"

text \<open>
  \<^verbatim>\<open>
  def __setitem__(self, index, value):
      if self.value is None:
          self.getValue()
      self.value[index] = value
      self._markFresh()

  def put(self, indices, value):
      selfvalue = self.getValue()
      numerix.put(selfvalue, indices, value)
      self._markFresh()
  \<close>
  The element assignment of the array library, for the index and the value of the
  call, is the parameter \<open>store\<close>: it gives the changed array or raises. On \<open>None\<close>
  the assignment raises \<open>TypeError\<close>. \<open>put\<close> changes the array that \<open>getValue\<close>
  returned in place, which is the object in the value slot whenever the slot is not
  \<open>None\<close>.
\<close>

definition setitem ::
  "config \<Rightarrow> calc \<Rightarrow> (ndarray \<Rightarrow> error + ndarray) \<Rightarrow> heap \<Rightarrow> ref \<Rightarrow> (error + unit) \<times> heap" where
  "setitem cfg calc store h self =
     (case (if valOf h self = None then getValue cfg calc h self else (Inr None, h)) of
        (Inl e, h1) \<Rightarrow> (Inl e, h1)
      | (Inr _, h1) \<Rightarrow>
          (case valOf h1 self of
             None \<Rightarrow> (Inl TypeError, h1)
           | Some a \<Rightarrow>
               (case store a of
                  Inl e \<Rightarrow> (Inl e, h1)
                | Inr a' \<Rightarrow> (Inr (), markFresh (setValue_private h1 self (Some a')) self))))"

definition put ::
  "config \<Rightarrow> calc \<Rightarrow> (ndarray \<Rightarrow> error + ndarray) \<Rightarrow> heap \<Rightarrow> ref \<Rightarrow> (error + unit) \<times> heap" where
  "put cfg calc store h self =
     (case getValue cfg calc h self of
        (Inl e, h1) \<Rightarrow> (Inl e, h1)
      | (Inr None, h1) \<Rightarrow> (Inl TypeError, h1)
      | (Inr (Some a), h1) \<Rightarrow>
          (case store a of
             Inl e \<Rightarrow> (Inl e, h1)
           | Inr a' \<Rightarrow>
               (Inr (), markFresh (if valOf h1 self = None then h1
                                   else setValue_private h1 self (Some a')) self)))"

subsection \<open>Evaluation of operator variables\<close>

text \<open>Modelled from the spec: \<open>_calcValue\<close> of an operator variable, whose class is not
  in this file. "\<open>recompute\<close> for an expression node evaluates every operand
  (recursively through this same engine, so a deep expression chain fully re-derives
  only the portion actually stale) then applies the node's function": the operands
  are read with \<open>getValue\<close>, in the order of the operand list, each in the heap the
  one before left. The function of a node (\<open>self.op\<close>) is the parameter \<open>ops\<close>. The
  first argument of \<open>calcOp\<close> bounds the depth of the calls; at depth 0 the answer is
  \<open>RecursionError\<close>. Every other object has \<open>Variable._calcValue\<close>.\<close>

fun evalOperands ::
  "(heap \<Rightarrow> ref \<Rightarrow> (error + ndarray option) \<times> heap) \<Rightarrow> heap \<Rightarrow> ref list
     \<Rightarrow> (error + ndarray option list) \<times> heap" where
  "evalOperands ev h [] = (Inr [], h)"
| "evalOperands ev h (v # vs) =
     (case ev h v of
        (Inl e, h1) \<Rightarrow> (Inl e, h1)
      | (Inr x, h1) \<Rightarrow>
          (case evalOperands ev h1 vs of
             (Inl e, h2) \<Rightarrow> (Inl e, h2)
           | (Inr xs, h2) \<Rightarrow> (Inr (x # xs), h2)))"

definition isOperator :: "heap \<Rightarrow> ref \<Rightarrow> bool" where
  "isOperator h r =
     (case deref h r of Some n \<Rightarrow> (case cls n of OperatorC b \<Rightarrow> True | _ \<Rightarrow> False) | None \<Rightarrow> False)"

primrec calcOp ::
  "nat \<Rightarrow> config \<Rightarrow> (ref \<Rightarrow> ndarray option list \<Rightarrow> error + ndarray option) \<Rightarrow> calc" where
  "calcOp 0 cfg ops = (\<lambda>h self. (Inl RecursionError, h))"
| "calcOp (Suc k) cfg ops =
     (\<lambda>h self.
        if isOperator h self then
          (case evalOperands (getValue cfg (calcOp k cfg ops)) h (requiredVariablesOf h self) of
             (Inl e, h1) \<Rightarrow> (Inl e, h1)
           | (Inr xs, h1) \<Rightarrow> (ops self xs, h1))
        else calcValue h self)"

text \<open>\<open>evaluate\<close> is \<open>getValue\<close> on a graph of leaves and operator variables.\<close>

definition evaluate ::
  "nat \<Rightarrow> config \<Rightarrow> (ref \<Rightarrow> ndarray option list \<Rightarrow> error + ndarray option) \<Rightarrow> heap \<Rightarrow> ref
     \<Rightarrow> (error + ndarray option) \<times> heap" where
  "evaluate k cfg ops h self = getValue cfg (calcOp k cfg ops) h self"

subsection \<open>cacheMe and dontCacheMe\<close>

text \<open>
  \<^verbatim>\<open>
  def cacheMe(self, recursive=False):
      self._cached = True
      if recursive:
          for var in self.requiredVariables:
              var.cacheMe(recursive=True)

  def dontCacheMe(self, recursive=False):
      self._cached = False
      if recursive:
          for var in self.requiredVariables:
              var.dontCacheMe(recursive=False)
  \<close>
  \<open>cacheMe\<close> recurses as deep as the \<open>requiredVariables\<close> lead; on a cycle it would not
  return. The first argument bounds the depth of the calls: \<open>None\<close> is the bound
  exceeded. \<open>dontCacheMe\<close> calls itself with \<open>recursive=False\<close> only, so its inner call
  is the assignment alone.
\<close>

fun cacheMe :: "nat \<Rightarrow> bool \<Rightarrow> heap \<Rightarrow> ref \<Rightarrow> heap option"
  and cacheMe_loop :: "nat \<Rightarrow> heap \<Rightarrow> ref list \<Rightarrow> heap option" where
  "cacheMe 0 recursive h self = None"
| "cacheMe (Suc k) recursive h self =
     (let h1 = modify h self (\<lambda>n. n\<lparr>cached := True\<rparr>)
      in if recursive then cacheMe_loop k h1 (requiredVariablesOf h1 self) else Some h1)"
| "cacheMe_loop k h [] = Some h"
| "cacheMe_loop k h (var # vars) =
     (case cacheMe k True h var of None \<Rightarrow> None | Some h' \<Rightarrow> cacheMe_loop k h' vars)"

definition dontCacheMe_flat :: "heap \<Rightarrow> ref \<Rightarrow> heap" where
  "dontCacheMe_flat h self = modify h self (\<lambda>n. n\<lparr>cached := False\<rparr>)"

definition dontCacheMe :: "bool \<Rightarrow> heap \<Rightarrow> ref \<Rightarrow> heap" where
  "dontCacheMe recursive h self =
     (let h1 = modify h self (\<lambda>n. n\<lparr>cached := False\<rparr>)
      in if recursive
         then fold (\<lambda>var h'. dontCacheMe_flat h' var) (requiredVariablesOf h1 self) h1
         else h1)"

subsection \<open>Shapes, classes and operator variables\<close>

text \<open>
  \<^verbatim>\<open>
  def getShape(self):
      if self.value is not None:
          return numerix.getShape(self.value)
      else:
          return ()
  \<close>
\<close>

definition getShape :: "node \<Rightarrow> nat list" where
  "getShape n = (case val n of Some a \<Rightarrow> shape a | None \<Rightarrow> [])"

text \<open>Modelled from the spec: the shape of an operator variable, whose class is not in
  this file, is its declared result shape \<open>opShape\<close> ("Expression nodes additionally: a
  pure evaluation function and a declared result shape"); \<open>_getCstring\<close> reads it the
  same way, \<open>self.opShape\<close> first and \<open>self.shape\<close> when the attribute is absent.\<close>

definition nodeShape :: "node \<Rightarrow> nat list" where
  "nodeShape n = (case opShape n of Some s \<Rightarrow> s | None \<Rightarrow> getShape n)"

text \<open>Modelled from the spec: the padding of \<open>numerix._broadcastShapes\<close>, which is not
  in this file. An absent leading dimension counts as 1 ("implicit leading 1s").\<close>

definition padShape :: "nat \<Rightarrow> nat list \<Rightarrow> nat list" where
  "padShape k s = replicate (k - length s) 1 @ s"

text \<open>Modelled from the spec: \<open>numerix._broadcastShapes\<close>, which is not in this file.
  "Trailing dimensions are compared right-aligned; two dimensions are compatible if
  equal or if either is size 1 (broadcast) or absent (implicit leading 1s)"; with no
  common shape the result is \<open>None\<close>.\<close>

definition broadcastShapes :: "nat list \<Rightarrow> nat list \<Rightarrow> nat list option" where
  "broadcastShapes s1 s2 =
     (let k = max (length s1) (length s2); a = padShape k s1; b = padShape k s2
      in if list_all2 (\<lambda>x y. x = y \<or> x = 1 \<or> y = 1) a b
         then Some (map2 (\<lambda>x y. if x = 1 then y else x) a b)
         else None)"

text \<open>
  \<^verbatim>\<open>
  def _broadcastShape(self, other):
      ...
      else:
          ignore, ignore, broadcastshape = numerix._broadcastShapes(self.shape, numerix.getShape(other))
      return broadcastshape

  def _getArithmeticBaseClass(self, other=None):
      if other is None:
          return Variable
      if self._broadcastShape(other) is not None:
          if isinstance(self, other._getArithmeticBaseClass()) or isinstance(other, _Constant):
              return self._getArithmeticBaseClass()
          else:
              return None
      else:
          return None
  \<close>
  The two \<open>_IndexVariable_\<close> branches of \<open>_broadcastShape\<close> are for a class that is not
  among the modelled ones. \<open>isinstance_of\<close> is Python's \<open>isinstance\<close> on the modelled
  classes: \<open>_Constant\<close> and every operator class derive from \<open>Variable\<close>. None of them
  overrides \<open>_getArithmeticBaseClass\<close>, so the call without argument gives \<open>Variable\<close>
  on either operand.
\<close>

fun isinstance_of :: "vclass \<Rightarrow> vclass \<Rightarrow> bool" where
  "isinstance_of VariableC d = (d = VariableC)"
| "isinstance_of ConstantC d = (d = ConstantC \<or> d = VariableC)"
| "isinstance_of (OperatorC b) d = (d = OperatorC b \<or> isinstance_of b d)"

definition broadcastShape :: "node \<Rightarrow> node \<Rightarrow> nat list option" where
  "broadcastShape self other = broadcastShapes (nodeShape self) (nodeShape other)"

definition getArithmeticBaseClass :: "node \<Rightarrow> node option \<Rightarrow> vclass option" where
  "getArithmeticBaseClass self other =
     (case other of
        None \<Rightarrow> Some VariableC
      | Some oth \<Rightarrow>
          if broadcastShape self oth \<noteq> None then
            (if isinstance_of (cls self) VariableC \<or> isinstance_of (cls oth) ConstantC
             then Some VariableC
             else None)
          else None)"

text \<open>
  \<^verbatim>\<open>
  def _shapeClassAndOther(self, opShape, operatorClass, other):
      baseClass = operatorClass or self._getArithmeticBaseClass(other)
      if opShape is None:
          opShape = self._broadcastShape(other)
      return (opShape, baseClass, other)
  \<close>
\<close>

definition shapeClassAndOther ::
  "node \<Rightarrow> nat list option \<Rightarrow> vclass option \<Rightarrow> node \<Rightarrow> nat list option \<times> vclass option" where
  "shapeClassAndOther self opSh operatorClass other =
     (let baseClass = (case operatorClass of
                         Some c \<Rightarrow> Some c
                       | None \<Rightarrow> getArithmeticBaseClass self (Some other));
          opSh' = (case opSh of None \<Rightarrow> broadcastShape self other | Some s \<Rightarrow> Some s)
      in (opSh', baseClass))"

text \<open>Modelled from the spec: the constructor of an operator variable
  (\<open>operatorVariable._OperatorVariableClass\<close>, not in this file). It "allocates a new
  node whose \<open>requires\<close> is the operand list (order-preserving)" and "registers
  dependency edges for every operand, which marks the new node dirty"; it returns
  the node without evaluating it. The allocation is \<open>Variable.__init__\<close> with no value,
  the edges are registered by \<open>_requires\<close>.\<close>

definition newOperatorVariable ::
  "heap \<Rightarrow> vclass \<Rightarrow> nat list \<Rightarrow> ref list \<Rightarrow> heap \<times> ref" where
  "newOperatorVariable h c sh vars =
     (let (h1, self) = newVariable h c None True;
          h2 = modify h1 self (\<lambda>n. n\<lparr>opShape := Some sh\<rparr>)
      in (fold (\<lambda>var h'. requires h' self var) vars h2, self))"

text \<open>
  \<^verbatim>\<open>
  def _BinaryOperatorVariable(self, op, other, operatorClass=None, opShape=None, canInline=True, unit=None):
      if not isinstance(other, Variable):
          from fipy.variables.constant import _Constant
          other = _Constant(value=other)
      if opShape is None or operatorClass is None:
          opShape, baseClass, other = self._shapeClassAndOther(opShape, operatorClass, other)
      if opShape is None or (operatorClass is None and baseClass is None):
          return NotImplemented
      ...
      operatorClass = operatorClass or self._OperatorVariableClass(baseClass)
      from fipy.variables import binaryOperatorVariable
      binOp = binaryOperatorVariable._BinaryOperatorVariable(operatorClass)
      var = binOp(op=op, var=[self, other], opShape=opShape, canInline=canInline, unit=unit, inlineComment=self._inlineComment())
      return var
  \<close>
  The right-hand operand is a \<open>Variable\<close> or any other value. The result is the new
  node, or the \<open>NotImplemented\<close> that the method returns instead of a node.
\<close>

datatype operand = Node ref | Raw ndarray

definition BinaryOperatorVariable ::
  "heap \<Rightarrow> ref \<Rightarrow> operand \<Rightarrow> vclass option \<Rightarrow> nat list option \<Rightarrow> (error + ref) \<times> heap" where
  "BinaryOperatorVariable h self oper operatorClass opSh =
     (let (h1, other) = (case oper of
                           Node r \<Rightarrow> (h, r)
                         | Raw a \<Rightarrow> newVariable h ConstantC (Some a) True)
      in case (deref h1 self, deref h1 other) of
           (Some sn, Some on) \<Rightarrow>
             (let (opSh', baseClass) =
                    (if opSh = None \<or> operatorClass = None
                     then shapeClassAndOther sn opSh operatorClass on
                     else (opSh, None))
              in case opSh' of
                   None \<Rightarrow> (Inl NotImplemented, h1)
                 | Some sh \<Rightarrow>
                     if operatorClass = None \<and> baseClass = None then (Inl NotImplemented, h1)
                     else
                       (let c = (case operatorClass of
                                   Some c \<Rightarrow> c
                                 | None \<Rightarrow> OperatorC (case baseClass of Some b \<Rightarrow> b | None \<Rightarrow> VariableC));
                            (h2, var) = newOperatorVariable h1 c sh [self, other]
                        in (Inr var, h2)))
         | _ \<Rightarrow> (Inl TypeError, h1))"

text \<open>
  \<^verbatim>\<open>
  def _UnaryOperatorVariable(self, op, operatorClass=None, opShape=None, canInline=True, unit=None):
      operatorClass = operatorClass or self._OperatorVariableClass()
      ...
      if opShape is None:
          opShape = self.shape
      if opShape is None:
          return NotImplemented
      ...
      var = unOp(op=op, var=[self], opShape=opShape, canInline=canInline, unit=unit, inlineComment=self._inlineComment())
      return var
  \<close>
\<close>

definition UnaryOperatorVariable ::
  "heap \<Rightarrow> ref \<Rightarrow> vclass option \<Rightarrow> nat list option \<Rightarrow> (error + ref) \<times> heap" where
  "UnaryOperatorVariable h self operatorClass opSh =
     (case deref h self of
        None \<Rightarrow> (Inl TypeError, h)
      | Some sn \<Rightarrow>
          (let c = (case operatorClass of Some c \<Rightarrow> c | None \<Rightarrow> OperatorC VariableC);
               sh = (case opSh of None \<Rightarrow> nodeShape sn | Some s \<Rightarrow> s);
               (h1, var) = newOperatorVariable h c sh [self]
           in (Inr var, h1)))"

subsection \<open>Dependents\<close>

text \<open>\<open>dependent h a t\<close>: \<open>t\<close> is reached from \<open>a\<close> by one or more steps along
  \<open>subscribedVariables\<close> entries whose weak reference resolves. \<open>notifies h a t\<close>: it is
  reached along such steps with every node strictly between \<open>a\<close> and \<open>t\<close> fresh.\<close>

inductive dependent :: "heap \<Rightarrow> ref \<Rightarrow> ref \<Rightarrow> bool" for h a where
  sub: "t \<in> set (liveSubs h a) \<Longrightarrow> dependent h a t"
| step: "dependent h a m \<Longrightarrow> t \<in> set (liveSubs h m) \<Longrightarrow> dependent h a t"

inductive notifies :: "heap \<Rightarrow> ref \<Rightarrow> ref \<Rightarrow> bool" for h a where
  direct: "t \<in> set (liveSubs h a) \<Longrightarrow> notifies h a t"
| via: "notifies h a m \<Longrightarrow> isFresh h m \<Longrightarrow> t \<in> set (liveSubs h m) \<Longrightarrow> notifies h a t"

text \<open>\<open>required h a t\<close>: \<open>t\<close> is \<open>a\<close> or is reached from it along \<open>requiredVariables\<close>.\<close>

inductive required :: "heap \<Rightarrow> ref \<Rightarrow> ref \<Rightarrow> bool" for h a where
  self: "required h a a"
| operand: "required h a m \<Longrightarrow> t \<in> set (requiredVariablesOf h m) \<Longrightarrow> required h a t"

text \<open>Operands are allocated before the nodes that require them: every entry of a
  node's \<open>requiredVariables\<close> is an older reference. This is what construction gives,
  and it excludes cycles.\<close>

definition operandsFirst :: "heap \<Rightarrow> bool" where
  "operandsFirst h =
     list_all (\<lambda>r. list_all (\<lambda>v. v < r) (requiredVariablesOf h r)) [0..<length h]"

text \<open>Two heaps with the same objects alive and the same \<open>requiredVariables\<close>.\<close>

definition sameRequires :: "heap \<Rightarrow> heap \<Rightarrow> bool" where
  "sameRequires h h' =
     (length h' = length h \<and> (\<forall>q. alive h' q = alive h q)
      \<and> (\<forall>q. requiredVariablesOf h' q = requiredVariablesOf h q))"

text \<open>\<open>cachedAfter h S h'\<close>: \<open>h'\<close> is \<open>h\<close> with \<open>_cached = True\<close> on the live nodes of \<open>S\<close>
  and nothing else about the graph changed.\<close>

definition cachedAfter :: "heap \<Rightarrow> (ref \<Rightarrow> bool) \<Rightarrow> heap \<Rightarrow> bool" where
  "cachedAfter h S h' =
     (sameRequires h h' \<and> (\<forall>m. cachedOf h' m = (if S m \<and> alive h m then Some True else cachedOf h m)))"

text \<open>Staleness is closed: every live subscriber of a stale node is stale.\<close>

definition staleClosed :: "heap \<Rightarrow> bool" where
  "staleClosed h =
     list_all (\<lambda>r. \<not> isStale h r \<or> list_all (isStale h) (liveSubs h r)) [0..<length h]"

section \<open>Example graphs\<close>

text \<open>A leaf with two subscribers, the first of them reclaimed.\<close>

definition leafA :: node where
  "leafA = \<lparr>val = Some (NDArray [] [3]), stale = False, cached = True, requiredVariables = [],
             subscribedVariables = [1, 2], cls = VariableC, opShape = None\<rparr>"

definition exprE :: node where
  "exprE = \<lparr>val = None, stale = True, cached = True, requiredVariables = [0],
             subscribedVariables = [], cls = OperatorC VariableC, opShape = Some []\<rparr>"

text \<open>A leaf at 0, an expression of it at 1 and an expression of that one at 2, all
  evaluated and fresh.\<close>

definition chain3 :: heap where
  "chain3 =
    [Some \<lparr>val = Some (NDArray [1] [3]), stale = False, cached = True, requiredVariables = [],
           subscribedVariables = [1], cls = VariableC, opShape = None\<rparr>,
     Some \<lparr>val = Some (NDArray [1] [7]), stale = False, cached = True, requiredVariables = [0],
           subscribedVariables = [2], cls = OperatorC VariableC, opShape = Some [1]\<rparr>,
     Some \<lparr>val = Some (NDArray [1] [8]), stale = False, cached = True, requiredVariables = [1],
           subscribedVariables = [], cls = OperatorC VariableC, opShape = Some [1]\<rparr>]"

text \<open>\<open>a = Variable((3,)); b = a + 4; c = b + 1; c.setValue((8,))\<close>: the nodes are
  \<open>a\<close> at 0, \<open>b\<close> at 2 and \<open>c\<close> at 4, the two constants at 1 and 3. \<open>b\<close> has never been
  evaluated and is stale; \<open>c\<close> has been given a value and is fresh.\<close>

definition blockedChain :: heap where
  "blockedChain =
     (let (h1, a) = newVariable [] VariableC (Some (NDArray [1] [3])) True;
          (rb, h2) = BinaryOperatorVariable h1 a (Raw (NDArray [] [4])) None None;
          b = (case rb of Inr b \<Rightarrow> b | Inl e \<Rightarrow> a);
          (rc, h3) = BinaryOperatorVariable h2 b (Raw (NDArray [] [1])) None None;
          c = (case rc of Inr c \<Rightarrow> c | Inl e \<Rightarrow> a)
      in setValue h3 c (NDArray [1] [8]))"

text \<open>The default configuration, and the assignment \<open>value[0] = x\<close> of the array
  library.\<close>

definition plainConfig :: config where
  "plainConfig = \<lparr>cacheAlways = False, cacheNever = False\<rparr>"


text \<open>The configuration with \<open>_cacheAlways\<close> set, a \<open>_calcValue\<close> that returns a given array,
  one that raises, and a fresh node with \<open>_cached = False\<close> that holds a value.\<close>

definition alwaysConfig :: config where
  "alwaysConfig = \<lparr>cacheAlways = True, cacheNever = False\<rparr>"

definition constCalc :: "ndarray \<Rightarrow> calc" where
  "constCalc v h self = (Inr (Some v), h)"

definition failCalc :: calc where
  "failCalc h self = (Inl EvaluationError, h)"

definition uncachedHeap :: heap where
  "uncachedHeap =
    [Some \<lparr>val = Some (NDArray [1] [7]), stale = False, cached = False, requiredVariables = [],
           subscribedVariables = [], cls = OperatorC VariableC, opShape = Some [1]\<rparr>]"

text \<open>The chain with \<open>_cached = False\<close> on all three nodes.\<close>

definition uncachedChain :: heap where
  "uncachedChain = dontCacheMe True (dontCacheMe True chain3 2) 1"

text \<open>Three leaves of shapes \<open>(3,)\<close>, \<open>()\<close> and \<open>(4,)\<close>.\<close>

definition threeLeaves :: heap where
  "threeLeaves =
     (let (h1, a) = newVariable [] VariableC (Some (NDArray [3] [1, 2, 3])) True;
          (h2, b) = newVariable h1 VariableC (Some (NDArray [] [4])) True;
          (h3, c) = newVariable h2 VariableC (Some (NDArray [4] [1, 2, 3, 4])) True
      in h3)"

text \<open>A \<open>numerix.where\<close> whose mask selects every element: the new array, where the
  shapes agree.\<close>

definition selectAll :: "ndarray \<Rightarrow> ndarray option \<Rightarrow> error + ndarray" where
  "selectAll tmp cur = (case cur of None \<Rightarrow> Inl TypeError | Some a \<Rightarrow>
      if shape a = shape tmp then Inr tmp else Inl ValueError)"

text \<open>Operator functions that add up one-element arrays. The graph of
  \<open>x = Variable((10,)); y = Variable((3,)); e = +x; e.dontCacheMe(); b = e + y; c = b + e\<close>,
  with \<open>x\<close> at 0, \<open>y\<close> at 1, \<open>e\<close> at 2, \<open>b\<close> at 3 and \<open>c\<close> at 4, and the heap after
  \<open>c.getValue()\<close>.\<close>

fun scalarOf :: "ndarray option \<Rightarrow> int option" where
  "scalarOf (Some (NDArray s [x])) = Some x"
| "scalarOf v = None"

definition sumOp :: "ref \<Rightarrow> ndarray option list \<Rightarrow> error + ndarray option" where
  "sumOp r vals =
     (if list_all (\<lambda>v. scalarOf v \<noteq> None) vals
      then Inr (Some (NDArray [1]
             [sum_list (map (\<lambda>v. case scalarOf v of Some x \<Rightarrow> x | None \<Rightarrow> 0) vals)]))
      else Inl TypeError)"

definition sharedGraph :: heap where
  "sharedGraph =
     (let (h1, x) = newVariable [] VariableC (Some (NDArray [1] [10])) True;
          (h2, y) = newVariable h1 VariableC (Some (NDArray [1] [3])) True;
          (re, h3) = UnaryOperatorVariable h2 x None None;
          e = (case re of Inr e \<Rightarrow> e | Inl _ \<Rightarrow> x);
          h4 = dontCacheMe False h3 e;
          (rb, h5) = BinaryOperatorVariable h4 e (Node y) None None;
          b = (case rb of Inr b \<Rightarrow> b | Inl _ \<Rightarrow> x);
          (rc, h6) = BinaryOperatorVariable h5 b (Node e) None None
      in h6)"

definition sharedEvaluated :: heap where
  "sharedEvaluated = snd (evaluate 5 plainConfig sumOp sharedGraph 4)"

section \<open>Facts about the heap and the propagation\<close>

lemma deref_update:
  "deref (h[r := x]) q = (if q = r \<and> r < length h then x else deref h q)"
  by (simp add: deref_def)

lemma deref_Some_length: "deref h r = Some n \<Longrightarrow> r < length h"
  by (simp add: deref_def split: if_splits)

lemma alive_modify [simp]: "alive (modify h r f) q = alive h q"
  by (simp add: alive_def deref_modify)

lemma alive_modify_fun [simp]: "alive (modify h r f) = alive h"
  by (rule ext) simp

lemma liveSubs_modify_stale [simp]:
  "liveSubs (modify h s (\<lambda>n. n\<lparr>stale := b\<rparr>)) q = liveSubs h q"
  by (auto simp: liveSubs_def deref_modify split: option.splits)

lemma liveSubs_modify_val [simp]:
  "liveSubs (modify h s (\<lambda>n. n\<lparr>val := v\<rparr>)) q = liveSubs h q"
  by (auto simp: liveSubs_def deref_modify split: option.splits)

lemma getSubscribedVariables_snd [simp]:
  "snd (getSubscribedVariables h self) = liveSubs h self"
  by (simp add: getSubscribedVariables_def Let_def)

lemma getSubscribedVariables_fst_deref:
  "deref (fst (getSubscribedVariables h self)) q =
     (if q = self then map_option (\<lambda>n. n\<lparr>subscribedVariables := liveSubs h self\<rparr>) (deref h self)
      else deref h q)"
  by (simp add: getSubscribedVariables_def Let_def deref_modify)

lemma alive_getSubscribedVariables [simp]:
  "alive (fst (getSubscribedVariables h self)) q = alive h q"
  by (simp add: getSubscribedVariables_def Let_def)

lemma filter_alive_liveSubs: "filter (alive h) (liveSubs h q) = liveSubs h q"
  by (simp add: liveSubs_def split: option.splits)

lemma liveSubs_getSubscribedVariables [simp]:
  "liveSubs (fst (getSubscribedVariables h self)) q = liveSubs h q"
proof -
  have a: "alive (fst (getSubscribedVariables h self)) = alive h"
    by (rule ext) simp
  show ?thesis
  proof (cases "q = self")
    case True
    then show ?thesis
      using filter_alive_liveSubs [of h self]
      by (cases "deref h self")
         (simp_all add: liveSubs_def [of "fst (getSubscribedVariables h self)"]
           getSubscribedVariables_fst_deref a liveSubs_def [of h self])
  next
    case False
    then show ?thesis
      by (cases "deref h q")
         (simp_all add: liveSubs_def [of "fst (getSubscribedVariables h self)"]
           getSubscribedVariables_fst_deref a liveSubs_def [of h q])
  qed
qed

lemma isStale_getSubscribedVariables [simp]:
  "isStale (fst (getSubscribedVariables h self)) q = isStale h q"
  by (auto simp: isStale_def getSubscribedVariables_fst_deref split: option.splits)

lemma isFresh_getSubscribedVariables [simp]:
  "isFresh (fst (getSubscribedVariables h self)) q = isFresh h q"
  by (auto simp: isFresh_def getSubscribedVariables_fst_deref split: option.splits)

lemma isFresh_alive: "isFresh h q \<Longrightarrow> alive h q"
  by (auto simp: isFresh_def alive_def split: option.splits)

lemma isStale_alive: "isStale h q \<Longrightarrow> alive h q"
  by (auto simp: isStale_def alive_def split: option.splits)

lemma isFresh_iff: "isFresh h q \<longleftrightarrow> alive h q \<and> \<not> isStale h q"
  by (auto simp: isFresh_def isStale_def alive_def split: option.splits)

lemma isStale_modify_stale:
  "isStale (modify h s (\<lambda>n. n\<lparr>stale := b\<rparr>)) q = (if q = s \<and> alive h s then b else isStale h q)"
  by (auto simp: isStale_def deref_modify alive_def split: option.splits)

lemma alive_visit [simp]: "alive (visit h s) q = alive h q"
  by (simp add: visit_def)

lemma liveSubs_visit [simp]: "liveSubs (visit h s) q = liveSubs h q"
  by (simp add: visit_def)

lemma isStale_visit: "isStale (visit h s) q = (if q = s \<and> alive h s then True else isStale h q)"
  by (simp add: visit_def isStale_modify_stale)

lemma isFresh_visit: "isFresh (visit h s) q = (isFresh h q \<and> q \<noteq> s)"
  by (auto simp: isFresh_iff isStale_visit)

lemma markStaleAll_Cons:
  "markStaleAll h (s # ss) =
     (if isFresh h s then markStaleAll (visit h s) (liveSubs h s @ ss) else markStaleAll h ss)"
  by (simp add: visit_def split: prod.splits)
     (metis snd_conv getSubscribedVariables_snd liveSubs_modify_stale)

lemma markStaleVisits_Cons:
  "markStaleVisits h (s # ss) =
     (if isFresh h s then s # markStaleVisits (visit h s) (liveSubs h s @ ss)
      else markStaleVisits h ss)"
  by (simp add: visit_def split: prod.splits)
     (metis snd_conv getSubscribedVariables_snd liveSubs_modify_stale)

lemma markStaleAll_induct [case_names Nil Cons]:
  assumes "\<And>h. P h []"
    and "\<And>h s ss. (isFresh h s \<Longrightarrow> P (visit h s) (liveSubs h s @ ss))
           \<Longrightarrow> (\<not> isFresh h s \<Longrightarrow> P h ss) \<Longrightarrow> P h (s # ss)"
  shows "P h ss"
proof (induction h ss rule: markStaleAll.induct)
  case (1 h)
  show ?case by (rule assms(1))
next
  case (2 h s ss)
  show ?case
  proof (rule assms(2))
    assume f: "isFresh h s"
    have "P (fst (getSubscribedVariables (modify h s (\<lambda>n. n\<lparr>stale := True\<rparr>)) s))
            (snd (getSubscribedVariables (modify h s (\<lambda>n. n\<lparr>stale := True\<rparr>)) s) @ ss)"
      by (rule "2.IH"(1) [OF f refl]) (simp only: prod.collapse)
    then show "P (visit h s) (liveSubs h s @ ss)"
      by (simp add: visit_def)
  next
    assume "\<not> isFresh h s"
    then show "P h ss" by (rule "2.IH"(2))
  qed
qed


declare markStaleAll.simps(2) [simp del] markStaleVisits.simps(2) [simp del]

lemma visit_deref:
  "deref (visit h s) q =
     (if q = s then map_option (\<lambda>n. n\<lparr>stale := True, subscribedVariables := liveSubs h s\<rparr>) (deref h s)
      else deref h q)"
  by (cases "deref h s")
     (simp_all add: visit_def getSubscribedVariables_fst_deref deref_modify)

lemma alive_markStaleAll [simp]: "alive (markStaleAll h ss) q = alive h q"
  by (induction h ss rule: markStaleAll_induct) (simp_all add: markStaleAll_Cons)

lemma liveSubs_markStaleAll [simp]: "liveSubs (markStaleAll h ss) q = liveSubs h q"
  by (induction h ss rule: markStaleAll_induct) (simp_all add: markStaleAll_Cons)

lemma isStale_markStaleAll_mono: "isStale h q \<Longrightarrow> isStale (markStaleAll h ss) q"
  by (induction h ss rule: markStaleAll_induct)
     (simp_all add: markStaleAll_Cons isStale_visit)

lemma markStaleAll_pending_stale:
  "s \<in> set ss \<Longrightarrow> alive h s \<Longrightarrow> isStale (markStaleAll h ss) s"
proof (induction h ss rule: markStaleAll_induct)
  case (Nil h)
  then show ?case by simp
next
  case (Cons h t ts)
  show ?case
  proof (cases "isFresh h t")
    case True
    show ?thesis
    proof (cases "s = t")
      case True
      with \<open>isFresh h t\<close> have "isStale (visit h t) s"
        by (simp add: isStale_visit isFresh_alive)
      then show ?thesis
        using \<open>isFresh h t\<close> by (simp add: markStaleAll_Cons isStale_markStaleAll_mono)
    next
      case False
      with Cons.prems have "s \<in> set (liveSubs h t @ ts)" by simp
      then show ?thesis
        using Cons.IH(1) [OF True] Cons.prems(2) True by (simp add: markStaleAll_Cons)
    qed
  next
    case False
    show ?thesis
    proof (cases "s = t")
      case True
      with False Cons.prems(2) have "isStale h s" by (simp add: isFresh_iff)
      then show ?thesis using False by (simp add: markStaleAll_Cons isStale_markStaleAll_mono)
    next
      case neq: False
      with Cons.prems have "s \<in> set ts" by simp
      then show ?thesis
        using Cons.IH(2) [OF False] Cons.prems(2) False by (simp add: markStaleAll_Cons)
    qed
  qed
qed

lemma set_liveSubs_alive: "t \<in> set (liveSubs h m) \<Longrightarrow> alive h t"
  by (auto simp: liveSubs_def split: option.splits)

lemma markStaleAll_closed:
  "isFresh h m \<Longrightarrow> isStale (markStaleAll h ss) m \<Longrightarrow> t \<in> set (liveSubs h m)
     \<Longrightarrow> isStale (markStaleAll h ss) t"
proof (induction h ss rule: markStaleAll_induct)
  case (Nil h)
  then show ?case by (simp add: isFresh_iff)
next
  case (Cons h s ss)
  show ?case
  proof (cases "isFresh h s")
    case True
    show ?thesis
    proof (cases "m = s")
      case True
      with Cons.prems(3) have "t \<in> set (liveSubs h s @ ss)" by simp
      moreover have "alive (visit h s) t"
        using Cons.prems(3) by (simp add: set_liveSubs_alive)
      ultimately have "isStale (markStaleAll (visit h s) (liveSubs h s @ ss)) t"
        by (rule markStaleAll_pending_stale)
      then show ?thesis using \<open>isFresh h s\<close> by (simp add: markStaleAll_Cons)
    next
      case False
      with Cons.prems(1) have "isFresh (visit h s) m" by (simp add: isFresh_visit)
      then show ?thesis
        using Cons.IH(1) [OF True] Cons.prems(2,3) True by (simp add: markStaleAll_Cons)
    qed
  next
    case False
    then show ?thesis
      using Cons.IH(2) [OF False] Cons.prems by (simp add: markStaleAll_Cons)
  qed
qed

lemma markStaleAll_append:
  "markStaleAll h (xs @ ys) = markStaleAll (markStaleAll h xs) ys"
proof (induction h xs rule: markStaleAll_induct)
  case (Nil h)
  then show ?case by simp
next
  case (Cons h s ss)
  then show ?case by (simp add: markStaleAll_Cons)
qed

lemma markStaleVisits_fresh: "m \<in> set (markStaleVisits h ss) \<Longrightarrow> isFresh h m"
  by (induction h ss rule: markStaleAll_induct)
     (auto simp: markStaleVisits_Cons isFresh_visit split: if_splits)

lemma distinct_markStaleVisits: "distinct (markStaleVisits h ss)"
  by (induction h ss rule: markStaleAll_induct)
     (auto simp: markStaleVisits_Cons isFresh_visit dest: markStaleVisits_fresh)

lemma isStale_markStaleAll_iff:
  "isStale (markStaleAll h ss) m \<longleftrightarrow> isStale h m \<or> m \<in> set (markStaleVisits h ss)"
  by (induction h ss rule: markStaleAll_induct)
     (auto simp: markStaleAll_Cons markStaleVisits_Cons isStale_visit isFresh_alive)

lemma markStaleVisits_subset:
  "set (markStaleVisits h ss) \<subseteq> {m. isFresh h m}"
  by (auto dest: markStaleVisits_fresh)

lemma private_markStale_eq:
  "private_markStale h n = markStaleAll (fst (getSubscribedVariables h n)) (liveSubs h n)"
  by (simp add: private_markStale_def case_prod_unfold)

lemma markStale_eq: "markStale h n = markStaleAll h [n]"
  by (simp add: markStale_def private_markStale_eq markStaleAll_Cons visit_def)

lemma markFresh_eq:
  "markFresh h n =
     markStaleAll (fst (getSubscribedVariables (modify h n (\<lambda>n. n\<lparr>stale := False\<rparr>)) n))
       (liveSubs h n)"
  by (simp add: markFresh_def private_markStale_eq)

lemma countFresh_visit: "isFresh h s \<Longrightarrow> countFresh (visit h s) + 1 = countFresh h"
proof -
  assume f: "isFresh h s"
  then obtain n where n: "deref h s = Some n" "\<not> stale n"
    by (auto simp: isFresh_def split: option.splits)
  let ?h1 = "modify h s (\<lambda>n. n\<lparr>stale := True\<rparr>)"
  have c1: "countFresh ?h1 + 1 = countFresh h"
    using countFresh_modify [OF n(1), of "\<lambda>n. n\<lparr>stale := True\<rparr>"] n(2)
    by (simp add: freshBit_def)
  have d1: "deref ?h1 s = Some (n\<lparr>stale := True\<rparr>)"
    using n(1) by (simp add: deref_modify)
  have "countFresh (visit h s) = countFresh ?h1"
    using countFresh_modify [OF d1, of "\<lambda>n. n\<lparr>subscribedVariables := liveSubs ?h1 s\<rparr>"]
    by (simp add: visit_def getSubscribedVariables_def Let_def freshBit_def)
  with c1 show ?thesis by simp
qed

lemma markStaleVisits_count:
  "length (markStaleVisits h ss) + countFresh (markStaleAll h ss) = countFresh h"
proof (induction h ss rule: markStaleAll_induct)
  case (Nil h)
  then show ?case by simp
next
  case (Cons h s ss)
  then show ?case
    using countFresh_visit [of h s]
    by (cases "isFresh h s") (simp_all add: markStaleAll_Cons markStaleVisits_Cons)
qed

lemma dependent_cong:
  assumes "\<And>q. liveSubs h' q = liveSubs h q"
  shows "dependent h' a t = dependent h a t"
proof
  assume "dependent h' a t"
  then show "dependent h a t"
    by induction (auto simp: assms intro: dependent.intros)
next
  assume "dependent h a t"
  then show "dependent h' a t"
    by induction (auto simp: assms [symmetric] intro: dependent.intros)
qed

lemma dependent_trans_sub:
  "dependent h s m \<Longrightarrow> s \<in> set (liveSubs h a) \<Longrightarrow> dependent h a m"
  by (induction rule: dependent.induct) (auto intro: dependent.intros)

lemma markStaleVisits_reached:
  "m \<in> set (markStaleVisits h ss) \<Longrightarrow> m \<in> set ss \<or> (\<exists>s \<in> set ss. dependent h s m)"
proof (induction h ss rule: markStaleAll_induct)
  case (Nil h)
  then show ?case by simp
next
  case (Cons h s ss)
  show ?case
  proof (cases "isFresh h s")
    case True
    have dep: "\<And>a. dependent (visit h s) a m = dependent h a m"
      by (rule dependent_cong) simp
    from Cons.prems True have "m = s \<or> m \<in> set (markStaleVisits (visit h s) (liveSubs h s @ ss))"
      by (simp add: markStaleVisits_Cons)
    then show ?thesis
    proof
      assume "m = s"
      then show ?thesis by simp
    next
      assume "m \<in> set (markStaleVisits (visit h s) (liveSubs h s @ ss))"
      from Cons.IH(1) [OF True this]
      show ?thesis
        by (auto simp: dep intro: dependent.sub dependent_trans_sub)
    qed
  next
    case False
    with Cons.prems have "m \<in> set (markStaleVisits h ss)"
      by (simp add: markStaleVisits_Cons)
    from Cons.IH(2) [OF False this] show ?thesis by auto
  qed
qed

lemma markStaleAll_frame:
  assumes "\<And>n b l. g (n\<lparr>stale := b, subscribedVariables := l\<rparr>) = g n"
  shows "map_option g (deref (markStaleAll h ss) q) = map_option g (deref h q)"
proof (induction h ss rule: markStaleAll_induct)
  case (Nil h)
  then show ?case by simp
next
  case (Cons h s ss)
  have "map_option g (deref (visit h s) q) = map_option g (deref h q)"
    by (cases "deref h s") (simp_all add: visit_deref assms)
  with Cons show ?case
    by (cases "isFresh h s") (simp_all add: markStaleAll_Cons)
qed

lemma markFresh_frame:
  assumes "\<And>n b l. g (n\<lparr>stale := b, subscribedVariables := l\<rparr>) = g n"
  shows "map_option g (deref (markFresh h self) q) = map_option g (deref h q)"
proof -
  have 1: "g (n\<lparr>stale := b\<rparr>) = g n" for n b
    using assms [where n = n and b = b and l = "subscribedVariables n"] by simp
  have 2: "g (n\<lparr>subscribedVariables := l\<rparr>) = g n" for n l
    using assms [where n = n and b = "stale n" and l = l] by simp
  show ?thesis
    by (cases "deref h self")
       (simp_all add: markFresh_eq markStaleAll_frame [of g, OF assms]
         getSubscribedVariables_fst_deref deref_modify 1 2)
qed

lemma alive_markFresh [simp]: "alive (markFresh h self) q = alive h q"
  by (simp add: markFresh_eq)

lemma liveSubs_markFresh [simp]: "liveSubs (markFresh h self) q = liveSubs h q"
  by (simp add: markFresh_eq)

lemma markFresh_notifies: "notifies h self t \<Longrightarrow> isStale (markFresh h self) t"
proof (induction rule: notifies.induct)
  case (direct t)
  then show ?case
    by (simp add: markFresh_eq markStaleAll_pending_stale set_liveSubs_alive)
next
  case (via m t)
  let ?g = "fst (getSubscribedVariables (modify h self (\<lambda>n. n\<lparr>stale := False\<rparr>)) self)"
  from via.hyps(2) have "isFresh ?g m"
    by (auto simp: isFresh_iff isStale_modify_stale)
  moreover have "isStale (markStaleAll ?g (liveSubs h self)) m"
    using via.IH by (simp add: markFresh_eq)
  moreover have "t \<in> set (liveSubs ?g m)"
    using via.hyps(3) by simp
  ultimately show ?case
    unfolding markFresh_eq by (rule markStaleAll_closed)
qed

lemma markFresh_other_stale_iff:
  "m \<noteq> self \<Longrightarrow>
   isStale (markFresh h self) m \<longleftrightarrow>
     isStale h m \<or> m \<in> set (markStaleVisits
        (fst (getSubscribedVariables (modify h self (\<lambda>n. n\<lparr>stale := False\<rparr>)) self)) (liveSubs h self))"
  by (simp add: markFresh_eq isStale_markStaleAll_iff isStale_modify_stale)

lemma markFresh_changed_dependent:
  assumes "isStale (markFresh h self) m" "\<not> isStale h m \<or> m = self"
  shows "dependent h self m"
proof -
  let ?g = "fst (getSubscribedVariables (modify h self (\<lambda>n. n\<lparr>stale := False\<rparr>)) self)"
  have ns: "\<not> isStale ?g m"
    using assms(2) by (auto simp: isStale_modify_stale dest: isStale_alive)
  with assms(1) have "m \<in> set (markStaleVisits ?g (liveSubs h self))"
    by (simp add: markFresh_eq isStale_markStaleAll_iff)
  then have "m \<in> set (liveSubs h self) \<or> (\<exists>s \<in> set (liveSubs h self). dependent ?g s m)"
    by (rule markStaleVisits_reached)
  moreover have "\<And>a. dependent ?g a m = dependent h a m"
    by (rule dependent_cong) simp
  ultimately show ?thesis
    by (auto intro: dependent.sub dependent_trans_sub)
qed

lemma notifies_dependent: "notifies h a t \<Longrightarrow> dependent h a t"
  by (induction rule: notifies.induct) (auto intro: dependent.intros)

lemma blockedChain_eq:
  "blockedChain =
    [Some \<lparr>val = Some (NDArray [1] [3]), stale = False, cached = True, requiredVariables = [],
           subscribedVariables = [2], cls = VariableC, opShape = None\<rparr>,
     Some \<lparr>val = Some (NDArray [] [4]), stale = False, cached = True, requiredVariables = [],
           subscribedVariables = [2], cls = ConstantC, opShape = None\<rparr>,
     Some \<lparr>val = None, stale = True, cached = True, requiredVariables = [0, 1],
           subscribedVariables = [4], cls = OperatorC VariableC, opShape = Some [1]\<rparr>,
     Some \<lparr>val = Some (NDArray [] [1]), stale = False, cached = True, requiredVariables = [],
           subscribedVariables = [4], cls = ConstantC, opShape = None\<rparr>,
     Some \<lparr>val = Some (NDArray [1] [8]), stale = False, cached = True, requiredVariables = [2, 3],
           subscribedVariables = [], cls = OperatorC VariableC, opShape = Some [1]\<rparr>]"
  by code_simp

lemma notifies_cong:
  assumes "\<And>q. liveSubs h' q = liveSubs h q" "\<And>q. isFresh h' q = isFresh h q"
  shows "notifies h' a t = notifies h a t"
proof
  assume "notifies h' a t"
  then show "notifies h a t"
    by induction (auto simp: assms intro: notifies.intros)
next
  assume "notifies h a t"
  then show "notifies h' a t"
    by induction (auto simp: assms [symmetric] intro: notifies.intros)
qed

lemma isFresh_modify_val [simp]: "isFresh (modify h s (\<lambda>n. n\<lparr>val := v\<rparr>)) q = isFresh h q"
  by (auto simp: isFresh_def deref_modify split: option.splits)

lemma isStale_modify_val [simp]: "isStale (modify h s (\<lambda>n. n\<lparr>val := v\<rparr>)) q = isStale h q"
  by (auto simp: isStale_def deref_modify split: option.splits)

lemma notifies_setValue_private [simp]:
  "notifies (setValue_private h self v) a t = notifies h a t"
  by (rule notifies_cong) (simp_all add: setValue_private_def)

lemma dependent_setValue_private [simp]:
  "dependent (setValue_private h self v) a t = dependent h a t"
  by (rule dependent_cong) (simp add: setValue_private_def)

lemma alive_setValue_private [simp]: "alive (setValue_private h self v) q = alive h q"
  by (simp add: setValue_private_def)

lemma isStale_setValue_private [simp]: "isStale (setValue_private h self v) q = isStale h q"
  by (simp add: setValue_private_def)

lemma markFresh_self_fresh:
  assumes "alive h self" "\<not> dependent h self self"
  shows "isFresh (markFresh h self) self"
proof -
  have "\<not> isStale (markFresh h self) self"
    using markFresh_changed_dependent [of h self self] assms(2) by blast
  with assms(1) show ?thesis by (simp add: isFresh_iff)
qed

lemma markFresh_other_mono:
  assumes "m \<noteq> self" "isStale h m"
  shows "isStale (markFresh h self) m"
proof -
  from assms have "isStale (fst (getSubscribedVariables (modify h self (\<lambda>n. n\<lparr>stale := False\<rparr>)) self)) m"
    by (simp add: isStale_modify_stale)
  then show ?thesis
    unfolding markFresh_eq by (rule isStale_markStaleAll_mono)
qed

lemma chain3_dependents_of_1: "dependent chain3 1 t \<Longrightarrow> t = 2"
proof (induction rule: dependent.induct)
  case (sub t)
  moreover have "liveSubs chain3 1 = [2]" by code_simp
  ultimately show ?case by simp
next
  case (step m t)
  moreover have "liveSubs chain3 2 = []" by code_simp
  ultimately show ?case by simp
qed

lemma setitem_success:
  assumes "setitem cfg calc store h self = (Inr (), h')"
  defines "h1 \<equiv> (if valOf h self = None then snd (getValue cfg calc h self) else h)"
  shows "\<exists>a'. valOf h1 self \<noteq> None \<and> h' = markFresh (setValue_private h1 self (Some a')) self"
proof (cases "valOf h self = None")
  case True
  then show ?thesis
    using assms(1) unfolding h1_def setitem_def
    by (auto split: prod.splits sum.splits option.splits)
next
  case False
  then show ?thesis
    using assms(1) unfolding h1_def setitem_def
    by (auto split: prod.splits sum.splits option.splits)
qed

lemma put_success:
  assumes "put cfg calc store h self = (Inr (), h')"
  defines "h1 \<equiv> snd (getValue cfg calc h self)"
  shows "h' = markFresh h1 self \<or> (\<exists>a'. h' = markFresh (setValue_private h1 self (Some a')) self)"
  using assms(1) unfolding h1_def put_def
  by (auto split: prod.splits sum.splits option.splits if_splits)

lemma valOf_alive: "valOf h r \<noteq> None \<Longrightarrow> alive h r"
  by (auto simp: valOf_def alive_def split: option.splits)

lemma valOf_markFresh [simp]: "valOf (markFresh h self) q = valOf h q"
proof -
  have "map_option val (deref (markFresh h self) q) = map_option val (deref h q)"
    by (rule markFresh_frame) simp
  then show ?thesis
    by (cases "deref (markFresh h self) q"; cases "deref h q") (simp_all add: valOf_def)
qed

lemma valOf_setValue_private:
  "valOf (setValue_private h self v) q = (if q = self \<and> alive h self then v else valOf h q)"
  by (auto simp: valOf_def setValue_private_def deref_modify alive_def split: option.splits)

lemma cachedOf_modify_cached:
  "cachedOf (modify h r (\<lambda>n. n\<lparr>cached := b\<rparr>)) m =
     (if m = r \<and> alive h r then Some b else cachedOf h m)"
  by (auto simp: cachedOf_def deref_modify alive_def)

lemma requiredVariablesOf_modify_cached [simp]:
  "requiredVariablesOf (modify h r (\<lambda>n. n\<lparr>cached := b\<rparr>)) q = requiredVariablesOf h q"
  by (auto simp: requiredVariablesOf_def deref_modify split: option.splits)

lemma sameRequires_refl [simp]: "sameRequires h h"
  by (simp add: sameRequires_def)

lemma sameRequires_trans: "sameRequires h h1 \<Longrightarrow> sameRequires h1 h2 \<Longrightarrow> sameRequires h h2"
  by (simp add: sameRequires_def)

lemma sameRequires_modify_cached [simp]:
  "sameRequires h (modify h r (\<lambda>n. n\<lparr>cached := b\<rparr>))"
  by (simp add: sameRequires_def length_modify)

lemma required_cong:
  assumes "sameRequires h h'"
  shows "required h' a t = required h a t"
proof
  assume "required h' a t"
  then show "required h a t"
    by induction (use assms in \<open>auto simp: sameRequires_def intro: required.intros\<close>)
next
  assume "required h a t"
  then show "required h' a t"
    by induction (use assms in \<open>auto simp: sameRequires_def intro: required.intros\<close>)
qed

lemma required_prepend:
  "required h v t \<Longrightarrow> v \<in> set (requiredVariablesOf h a) \<Longrightarrow> required h a t"
  by (induction rule: required.induct) (auto intro: required.intros)

lemma required_head:
  "required h a t \<longleftrightarrow> t = a \<or> (\<exists>v \<in> set (requiredVariablesOf h a). required h v t)"
proof
  assume "required h a t"
  then show "t = a \<or> (\<exists>v \<in> set (requiredVariablesOf h a). required h v t)"
    by induction (auto intro: required.intros)
next
  assume "t = a \<or> (\<exists>v \<in> set (requiredVariablesOf h a). required h v t)"
  then show "required h a t"
    by (auto intro: required.self required_prepend)
qed

lemma operandsFirst_less:
  assumes "operandsFirst h" "v \<in> set (requiredVariablesOf h r)"
  shows "v < r"
proof -
  from assms(2) have "r < length h"
    by (auto simp: requiredVariablesOf_def deref_def split: option.splits if_splits)
  with assms show ?thesis
    by (auto simp: operandsFirst_def list_all_iff)
qed

lemma operandsFirst_sameRequires:
  "sameRequires h h' \<Longrightarrow> operandsFirst h \<Longrightarrow> operandsFirst h'"
  by (simp add: operandsFirst_def sameRequires_def)

lemma cacheMe_loop_correct:
  assumes P: "\<And>h self. operandsFirst h \<Longrightarrow> self < k \<Longrightarrow>
                \<exists>h'. cacheMe k True h self = Some h' \<and> cachedAfter h (required h self) h'"
  shows "operandsFirst h \<Longrightarrow> \<forall>v \<in> set vars. v < k \<Longrightarrow>
           \<exists>h'. cacheMe_loop k h vars = Some h'
               \<and> cachedAfter h (\<lambda>m. \<exists>v \<in> set vars. required h v m) h'"
proof (induction vars arbitrary: h)
  case Nil
  then show ?case by (simp add: cachedAfter_def)
next
  case (Cons var vars)
  from P [of h var] Cons.prems obtain h1 where
    h1: "cacheMe k True h var = Some h1" "cachedAfter h (required h var) h1"
    by auto
  from h1(2) have s1: "sameRequires h h1" by (simp add: cachedAfter_def)
  then have w1: "operandsFirst h1"
    using Cons.prems(1) by (rule operandsFirst_sameRequires)
  from Cons.IH [OF w1] Cons.prems(2) obtain h' where
    h': "cacheMe_loop k h1 vars = Some h'"
        "cachedAfter h1 (\<lambda>m. \<exists>v \<in> set vars. required h1 v m) h'"
    by auto
  have r: "\<And>v m. required h1 v m = required h v m"
    using s1 by (rule required_cong)
  have a: "\<And>q. alive h1 q = alive h q"
    using s1 by (simp add: sameRequires_def)
  have "cachedAfter h (\<lambda>m. \<exists>v \<in> set (var # vars). required h v m) h'"
    using h1(2) h'(2) s1
    by (auto simp: cachedAfter_def r a intro: sameRequires_trans)
  with h1(1) h'(1) show ?case by simp
qed

lemma cacheMe_correct:
  "operandsFirst h \<Longrightarrow> self < k \<Longrightarrow>
     \<exists>h'. cacheMe k True h self = Some h' \<and> cachedAfter h (required h self) h'"
proof (induction k arbitrary: h self)
  case 0
  then show ?case by simp
next
  case (Suc k)
  let ?h1 = "modify h self (\<lambda>n. n\<lparr>cached := True\<rparr>)"
  have s1: "sameRequires h ?h1" by simp
  then have w1: "operandsFirst ?h1"
    using Suc.prems(1) by (rule operandsFirst_sameRequires)
  have b: "\<forall>v \<in> set (requiredVariablesOf ?h1 self). v < k"
    using Suc.prems operandsFirst_less [of h _ self] by fastforce
  from cacheMe_loop_correct [of k ?h1 "requiredVariablesOf ?h1 self", OF Suc.IH w1 b]
  obtain h' where
    h': "cacheMe_loop k ?h1 (requiredVariablesOf ?h1 self) = Some h'"
        "cachedAfter ?h1 (\<lambda>m. \<exists>v \<in> set (requiredVariablesOf ?h1 self). required ?h1 v m) h'"
    by auto
  have r: "\<And>v m. required ?h1 v m = required h v m"
    using s1 by (rule required_cong)
  have c: "cachedOf h' m = (if required h self m \<and> alive h m then Some True else cachedOf h m)" for m
  proof -
    from h'(2) have "cachedOf h' m =
        (if (\<exists>v \<in> set (requiredVariablesOf h self). required h v m) \<and> alive h m
         then Some True else cachedOf ?h1 m)"
      by (simp add: cachedAfter_def r)
    then show ?thesis
      by (auto simp: required_head [of h self m] cachedOf_modify_cached)
  qed
  have "sameRequires h h'"
    using h'(2) by (auto simp: cachedAfter_def intro: sameRequires_trans [OF s1])
  with c have "cachedAfter h (required h self) h'"
    by (simp add: cachedAfter_def)
  with h'(1) show ?case by simp
qed


lemma alive_dontCacheMe_flat [simp]: "alive (dontCacheMe_flat h r) q = alive h q"
  by (simp add: dontCacheMe_flat_def)

lemma cachedOf_fold_dontCacheMe_flat:
  "cachedOf (fold (\<lambda>var h'. dontCacheMe_flat h' var) vars h) m =
     (if m \<in> set vars \<and> alive h m then Some False else cachedOf h m)"
proof (induction vars arbitrary: h)
  case Nil
  then show ?case by simp
next
  case (Cons var vars)
  show ?case
    by (auto simp: Cons.IH dontCacheMe_flat_def [symmetric])
       (auto simp: dontCacheMe_flat_def cachedOf_modify_cached)
qed

lemma chain3_required_2_0: "required chain3 2 0"
proof -
  have "1 \<in> set (requiredVariablesOf chain3 2)" by code_simp
  moreover have "0 \<in> set (requiredVariablesOf chain3 1)" by code_simp
  ultimately show ?thesis by (blast intro: required.intros)
qed

lemma uncachedChain_required:
  "required uncachedChain 2 2" "required uncachedChain 2 1" "required uncachedChain 2 0"
proof -
  have 1: "1 \<in> set (requiredVariablesOf uncachedChain 2)" by code_simp
  have 0: "0 \<in> set (requiredVariablesOf uncachedChain 1)" by code_simp
  show 22: "required uncachedChain 2 2" by (rule required.self)
  from 22 1 show 21: "required uncachedChain 2 1" by (rule required.operand)
  from 21 0 show "required uncachedChain 2 0" by (rule required.operand)
qed


lemma deref_append_new [simp]: "deref (h @ [x]) (length h) = x"
  by (simp add: deref_def)

lemma deref_append_old: "q < length h \<Longrightarrow> deref (h @ [x]) q = deref h q"
  by (simp add: deref_def nth_append)

lemma deref_append:
  "deref (h @ [x]) q = (if q = length h then x else deref h q)"
  by (auto simp: deref_def nth_append)

lemma modify_append_new [simp]:
  "modify (h @ [Some n]) (length h) f = h @ [Some (f n)]"
  by (simp add: modify_def)

lemma liveSubs_append_new_empty [simp]:
  "subscribedVariables n = [] \<Longrightarrow> liveSubs (h @ [Some n]) (length h) = []"
  by (simp add: liveSubs_def)

lemma newVariable_eq:
  "newVariable h c v cch =
     (h @ [Some \<lparr>val = v, stale = False, cached = cch, requiredVariables = [],
                  subscribedVariables = [], cls = c, opShape = None\<rparr>], length h)"
  by (simp add: newVariable_def Let_def markFresh_eq getSubscribedVariables_def)

lemma alive_append: "alive (h @ [Some n]) q = (q = length h \<or> alive h q)"
  by (auto simp: alive_def deref_append)

lemma alive_markStale [simp]: "alive (markStale h self) q = alive h q"
  by (simp add: markStale_eq)

lemma markStale_frame:
  assumes "\<And>n b l. g (n\<lparr>stale := b, subscribedVariables := l\<rparr>) = g n"
  shows "map_option g (deref (markStale h self) q) = map_option g (deref h q)"
  unfolding markStale_eq by (rule markStaleAll_frame) (rule assms)

lemma alive_requires [simp]: "alive (requires h self var) q = alive h q"
  by (simp add: requires_def requiredBy_def Let_def)

lemma requiredVariablesOf_alt:
  "requiredVariablesOf h r = (case map_option requiredVariables (deref h r) of None \<Rightarrow> [] | Some l \<Rightarrow> l)"
  by (simp add: requiredVariablesOf_def split: option.splits)

lemma requiredVariablesOf_requires:
  "requiredVariablesOf (requires h self var) q =
     (if q = self \<and> alive h self then requiredVariablesOf h self @ [var]
      else requiredVariablesOf h q)"
proof -
  have "map_option requiredVariables (deref (requires h self var) q) =
        map_option requiredVariables
          (deref (requiredBy (modify h self (\<lambda>n. n\<lparr>requiredVariables := requiredVariables n @ [var]\<rparr>)) var self) q)"
    unfolding requires_def Let_def by (rule markStale_frame) simp
  then show ?thesis
    by (auto simp: requiredVariablesOf_alt requiredBy_def deref_modify alive_def
        split: option.splits)
qed

lemma requires_frame:
  assumes "\<And>n b l r. g (n\<lparr>stale := b, subscribedVariables := l, requiredVariables := r\<rparr>) = g n"
  shows "map_option g (deref (requires h self var) q) = map_option g (deref h q)"
proof -
  have 1: "g (n\<lparr>stale := b, subscribedVariables := l\<rparr>) = g n" for n b l
    using assms [where n = n and b = b and l = l and r = "requiredVariables n"] by simp
  have 2: "g (n\<lparr>subscribedVariables := l\<rparr>) = g n" for n l
    using 1 [where n = n and b = "stale n" and l = l] by simp
  have 3: "g (n\<lparr>requiredVariables := r\<rparr>) = g n" for n r
    using assms [where n = n and b = "stale n" and l = "subscribedVariables n" and r = r] by simp
  have "map_option g (deref (requires h self var) q) =
        map_option g (deref (requiredBy (modify h self (\<lambda>n. n\<lparr>requiredVariables := requiredVariables n @ [var]\<rparr>)) var self) q)"
    unfolding requires_def Let_def by (rule markStale_frame) (rule 1)
  then show ?thesis
    by (cases "deref h self"; cases "deref h var")
       (auto simp: requiredBy_def deref_modify 2 3)
qed

lemma fold_requires_alive [simp]:
  "alive (fold (\<lambda>var h'. requires h' self var) vars h) q = alive h q"
  by (induction vars arbitrary: h) simp_all

lemma fold_requires_requiredVariablesOf:
  "requiredVariablesOf (fold (\<lambda>var h'. requires h' self var) vars h) q =
     (if q = self \<and> alive h self then requiredVariablesOf h self @ vars
      else requiredVariablesOf h q)"
  by (induction vars arbitrary: h) (simp_all add: requiredVariablesOf_requires)

lemma fold_requires_frame:
  assumes "\<And>n b l r. g (n\<lparr>stale := b, subscribedVariables := l, requiredVariables := r\<rparr>) = g n"
  shows "map_option g (deref (fold (\<lambda>var h'. requires h' self var) vars h) q) = map_option g (deref h q)"
  by (induction vars arbitrary: h) (simp_all add: requires_frame [of g, OF assms])


lemma newOperatorVariable_eq:
  "newOperatorVariable h c sh vars =
     (fold (\<lambda>var h'. requires h' (length h) var) vars
        (h @ [Some \<lparr>val = None, stale = False, cached = True, requiredVariables = [],
                     subscribedVariables = [], cls = c, opShape = Some sh\<rparr>]),
      length h)"
  by (simp add: newOperatorVariable_def newVariable_eq)

lemma newOperatorVariable_requiredVariables:
  "requiredVariablesOf (fst (newOperatorVariable h c sh vars)) (length h) = vars"
proof -
  have "requiredVariablesOf (h @ [Some \<lparr>val = None, stale = False, cached = True,
          requiredVariables = [], subscribedVariables = [], cls = c, opShape = Some sh\<rparr>]) (length h) = []"
    by (simp add: requiredVariablesOf_def)
  then show ?thesis
    by (simp add: newOperatorVariable_eq fold_requires_requiredVariablesOf alive_append)
qed

lemma newOperatorVariable_old_requiredVariables:
  "q < length h \<Longrightarrow>
   requiredVariablesOf (fst (newOperatorVariable h c sh vars)) q = requiredVariablesOf h q"
proof -
  assume q: "q < length h"
  then have "requiredVariablesOf (h @ [Some \<lparr>val = None, stale = False, cached = True,
          requiredVariables = [], subscribedVariables = [], cls = c, opShape = Some sh\<rparr>]) q
        = requiredVariablesOf h q"
    by (simp add: requiredVariablesOf_def deref_append_old)
  with q show ?thesis
    by (simp add: newOperatorVariable_eq fold_requires_requiredVariablesOf)
qed

lemma newOperatorVariable_frame:
  assumes "\<And>n b l r. g (n\<lparr>stale := b, subscribedVariables := l, requiredVariables := r\<rparr>) = g n"
  shows "map_option g (deref (fst (newOperatorVariable h c sh vars)) q) =
     (if q = length h
      then Some (g \<lparr>val = None, stale = False, cached = True, requiredVariables = [],
                     subscribedVariables = [], cls = c, opShape = Some sh\<rparr>)
      else map_option g (deref h q))"
  by (simp add: newOperatorVariable_eq fold_requires_frame [of g, OF assms] deref_append)


lemma snd_newOperatorVariable [simp]: "snd (newOperatorVariable h c sh vars) = length h"
  by (simp add: newOperatorVariable_eq)

lemma isinstance_of_VariableC [simp]: "isinstance_of c VariableC"
  by (induction c) simp_all

lemma BinaryOperatorVariable_Node_Inr:
  assumes "BinaryOperatorVariable h self (Node r) operatorClass opSh = (Inr var, h')"
  shows "\<exists>c sh. h' = fst (newOperatorVariable h c sh [self, r]) \<and> var = length h"
  using assms unfolding BinaryOperatorVariable_def
  by (auto simp: Let_def case_prod_unfold split: option.splits if_splits)


lemma BinaryOperatorVariable_Raw_Inr:
  assumes "BinaryOperatorVariable h self (Raw a) operatorClass opSh = (Inr var, h')"
  shows "\<exists>c sh. h' = fst (newOperatorVariable
                (h @ [Some \<lparr>val = Some a, stale = False, cached = True, requiredVariables = [],
                             subscribedVariables = [], cls = ConstantC, opShape = None\<rparr>])
                c sh [self, length h])
           \<and> var = Suc (length h)"
  using assms unfolding BinaryOperatorVariable_def
  by (auto simp: Let_def case_prod_unfold newVariable_eq split: option.splits if_splits)

lemma UnaryOperatorVariable_Inr:
  assumes "UnaryOperatorVariable h self operatorClass opSh = (Inr var, h')"
  shows "\<exists>c sh. h' = fst (newOperatorVariable h c sh [self]) \<and> var = length h"
  using assms unfolding UnaryOperatorVariable_def
  by (auto simp: Let_def case_prod_unfold split: option.splits if_splits)



lemma threeLeaves_nodes:
  "deref threeLeaves 0 = Some \<lparr>val = Some (NDArray [3] [1, 2, 3]), stale = False, cached = True,
      requiredVariables = [], subscribedVariables = [], cls = VariableC, opShape = None\<rparr>"
  "deref threeLeaves 1 = Some \<lparr>val = Some (NDArray [] [4]), stale = False, cached = True,
      requiredVariables = [], subscribedVariables = [], cls = VariableC, opShape = None\<rparr>"
  "deref threeLeaves 2 = Some \<lparr>val = Some (NDArray [4] [1, 2, 3, 4]), stale = False, cached = True,
      requiredVariables = [], subscribedVariables = [], cls = VariableC, opShape = None\<rparr>"
  "length threeLeaves = 3"
  by code_simp+

text \<open>The run over a list of subscribers is the loop of \<open>__markStale\<close>: it calls
  \<open>_markStale\<close> on the first subscriber and goes on with the rest in the heap that
  call leaves.\<close>

lemma markStaleAll_loop: "markStaleAll h (s # ss) = markStaleAll (markStale h s) ss"
  using markStaleAll_append [of h "[s]" ss] by (simp add: markStale_eq)

lemma setValue_where_success:
  assumes "setValue_where cfg calc fill select h self = (Inr (), h')"
  shows "\<exists>a'. h' = markFresh (setValue_private (snd (getValue cfg calc h self)) self (Some a')) self"
  using assms unfolding setValue_where_def
  by (auto split: prod.splits sum.splits)

text \<open>How far the propagation of \<open>setValue\<close>, \<open>__setitem__\<close> and \<open>put\<close> reaches: to
  every dependent reached through nodes that are fresh when \<open>_markFresh\<close> runs, and to
  every dependent at all where staleness is closed and the node is not its own
  dependent.\<close>

lemma setValue_reaches_notified:
  "(notifies h leaf t \<longrightarrow> isStale (setValue h leaf v) t)
   \<and> (setValue_where cfg calc fill select h leaf = (Inr (), h')
        \<and> h1 = snd (getValue cfg calc h leaf) \<and> notifies h1 leaf t
      \<longrightarrow> isStale h' t)"
proof (intro conjI impI)
  assume "notifies h leaf t"
  then show "isStale (setValue h leaf v) t"
    unfolding setValue_def by (intro markFresh_notifies) simp
next
  assume a: "setValue_where cfg calc fill select h leaf = (Inr (), h')
        \<and> h1 = snd (getValue cfg calc h leaf) \<and> notifies h1 leaf t"
  with setValue_where_success [of cfg calc fill select h leaf h']
  obtain a' where "h' = markFresh (setValue_private h1 leaf (Some a')) leaf"
    by auto
  with a show "isStale h' t"
    by (auto intro!: markFresh_notifies)
qed

lemma setitem_put_reach_notified:
  "(setitem cfg calc store h self = (Inr (), h')
      \<and> h1 = (if valOf h self = None then snd (getValue cfg calc h self) else h)
     \<longrightarrow> (notifies h1 self t \<longrightarrow> isStale h' t)
         \<and> (\<not> dependent h1 self self \<longrightarrow> isFresh h' self))
   \<and> (put cfg calc store h self = (Inr (), h'')
      \<and> h2 = snd (getValue cfg calc h self)
     \<longrightarrow> (notifies h2 self t \<longrightarrow> isStale h'' t)
         \<and> (alive h2 self \<and> \<not> dependent h2 self self \<longrightarrow> isFresh h'' self))"
proof (intro conjI impI; elim conjE)
  assume a: "setitem cfg calc store h self = (Inr (), h')"
    and h1: "h1 = (if valOf h self = None then snd (getValue cfg calc h self) else h)"
  from setitem_success [OF a] h1 obtain a' where
    v: "valOf h1 self \<noteq> None" and h': "h' = markFresh (setValue_private h1 self (Some a')) self"
    by auto
  show "isStale h' t" if "notifies h1 self t"
    unfolding h' using that by (intro markFresh_notifies) simp
  show "isFresh h' self" if "\<not> dependent h1 self self"
    unfolding h' using that v by (intro markFresh_self_fresh) (simp_all add: valOf_alive)
next
  assume a: "put cfg calc store h self = (Inr (), h'')"
    and h2: "h2 = snd (getValue cfg calc h self)"
  from put_success [OF a] h2
  have h'': "h'' = markFresh h2 self \<or> (\<exists>a'. h'' = markFresh (setValue_private h2 self (Some a')) self)"
    by simp
  show "isStale h'' t" if "notifies h2 self t"
    using h'' that by (auto intro!: markFresh_notifies)
  show "isFresh h'' self" if "alive h2 self" "\<not> dependent h2 self self"
    using h'' that by (auto intro!: markFresh_self_fresh)
qed

lemma isStale_length: "isStale h m \<Longrightarrow> m < length h"
  by (auto simp: isStale_def deref_def split: option.splits if_splits)

lemma staleClosedD:
  "staleClosed h \<Longrightarrow> isStale h m \<Longrightarrow> t \<in> set (liveSubs h m) \<Longrightarrow> isStale h t"
  using isStale_length [of h m] by (auto simp: staleClosed_def list_all_iff)

lemma markFresh_closed:
  assumes "isFresh h m" "m \<noteq> self" "isStale (markFresh h self) m" "t \<in> set (liveSubs h m)"
  shows "isStale (markFresh h self) t"
proof -
  let ?g = "fst (getSubscribedVariables (modify h self (\<lambda>n. n\<lparr>stale := False\<rparr>)) self)"
  from assms(1,2) have "isFresh ?g m"
    by (auto simp: isFresh_iff isStale_modify_stale)
  moreover have "isStale (markStaleAll ?g (liveSubs h self)) m"
    using assms(3) by (simp add: markFresh_eq)
  moreover have "t \<in> set (liveSubs ?g m)"
    using assms(4) by simp
  ultimately show ?thesis
    unfolding markFresh_eq by (rule markStaleAll_closed)
qed

lemma dependent_alive: "dependent h a t \<Longrightarrow> alive h t"
  by (induction rule: dependent.induct) (auto dest: set_liveSubs_alive)

lemma markFresh_reaches_when_closed:
  assumes c: "staleClosed h" and n: "\<not> dependent h self self" and d: "dependent h self t"
  shows "isStale (markFresh h self) t"
  using d
proof (induction rule: dependent.induct)
  case (sub t)
  then show ?case by (simp add: markFresh_notifies notifies.direct)
next
  case (step m t)
  from step.hyps(1) n have m: "m \<noteq> self" by auto
  have "dependent h self t" using step.hyps(1,2) by (rule dependent.step)
  with n have t: "t \<noteq> self" by auto
  show ?case
  proof (cases "isStale h m")
    case True
    have "isStale h t" by (rule staleClosedD [OF c True step.hyps(2)])
    with t show ?thesis by (simp add: markFresh_other_mono)
  next
    case False
    with step.hyps(1) have "isFresh h m"
      by (simp add: isFresh_iff dependent_alive)
    then show ?thesis
      using m step.IH step.hyps(2) by (rule markFresh_closed)
  qed
qed

lemma staleClosed_setValue_private [simp]:
  "staleClosed (setValue_private h self v) = staleClosed h"
  by (simp add: staleClosed_def setValue_private_def length_modify list_all_iff)

lemma setValue_reaches_when_closed:
  "staleClosed h \<Longrightarrow> \<not> dependent h leaf leaf \<Longrightarrow> dependent h leaf t
     \<Longrightarrow> isStale (setValue h leaf v) t"
  unfolding setValue_def by (rule markFresh_reaches_when_closed) simp_all

lemma setitem_reaches_when_closed:
  assumes "setitem cfg calc store h self = (Inr (), h')" "valOf h self \<noteq> None"
    and "staleClosed h" "\<not> dependent h self self" "dependent h self t"
  shows "isStale h' t"
proof -
  from setitem_success [OF assms(1)] assms(2)
  obtain a' where "h' = markFresh (setValue_private h self (Some a')) self"
    by auto
  then show ?thesis
    using assms(3-5) by (auto intro!: markFresh_reaches_when_closed)
qed

text \<open>The graph with the shared operand that is not cached: closed before the
  evaluation of \<open>c\<close>, not closed after it.\<close>

lemma sharedEvaluated_eq:
  "sharedEvaluated =
    [Some \<lparr>val = Some (NDArray [1] [10]), stale = False, cached = True, requiredVariables = [],
           subscribedVariables = [2], cls = VariableC, opShape = None\<rparr>,
     Some \<lparr>val = Some (NDArray [1] [3]), stale = False, cached = True, requiredVariables = [],
           subscribedVariables = [3], cls = VariableC, opShape = None\<rparr>,
     Some \<lparr>val = None, stale = False, cached = False, requiredVariables = [0],
           subscribedVariables = [3, 4], cls = OperatorC VariableC, opShape = Some [1]\<rparr>,
     Some \<lparr>val = Some (NDArray [1] [13]), stale = True, cached = True, requiredVariables = [2, 1],
           subscribedVariables = [4], cls = OperatorC VariableC, opShape = Some [1]\<rparr>,
     Some \<lparr>val = Some (NDArray [1] [23]), stale = False, cached = True, requiredVariables = [3, 2],
           subscribedVariables = [], cls = OperatorC VariableC, opShape = Some [1]\<rparr>]"
  by code_simp


lemma sharedGraph_closed_until_evaluated:
  "staleClosed sharedGraph \<and> \<not> staleClosed sharedEvaluated"
  by code_simp

section \<open>Claims\<close>

text \<open>
  C8. For every node, \<open>getSubscribedVariables\<close> returns exactly the entries of the node's
  \<open>subscribedVariables\<close> whose weak reference still resolves, in their order, and stores
  that list back as the node's \<open>subscribedVariables\<close>: every dead entry is dropped from
  the stored list, every entry of the result is alive, every live entry is in the
  result, and no other field of the node and no other node changes.
\<close>

theorem getSubscribedVariables_compacts:
  "deref h self = Some n \<longrightarrow>
     snd (getSubscribedVariables h self) = filter (alive h) (subscribedVariables n)
   \<and> deref (fst (getSubscribedVariables h self)) self =
       Some (n\<lparr>subscribedVariables := filter (alive h) (subscribedVariables n)\<rparr>)
   \<and> (\<forall>s \<in> set (snd (getSubscribedVariables h self)). alive h s)
   \<and> (\<forall>s \<in> set (subscribedVariables n). alive h s \<longrightarrow> s \<in> set (snd (getSubscribedVariables h self)))
   \<and> (\<forall>q. q \<noteq> self \<longrightarrow> deref (fst (getSubscribedVariables h self)) q = deref h q)"
  by (auto simp: getSubscribedVariables_def liveSubs_def Let_def deref_modify)

text \<open>The leaf has two subscribers; the first has been reclaimed. The call returns
  the second alone and stores that list.\<close>

theorem getSubscribedVariables_compacts_witness:
  "deref [Some leafA, None, Some exprE] 0 = Some leafA
   \<and> snd (getSubscribedVariables [Some leafA, None, Some exprE] 0) = [2]
   \<and> deref (fst (getSubscribedVariables [Some leafA, None, Some exprE] 0)) 0 =
       Some (leafA\<lparr>subscribedVariables := [2]\<rparr>)
   \<and> deref (fst (getSubscribedVariables [Some leafA, None, Some exprE] 0)) 2 = Some exprE"
  using getSubscribedVariables_compacts [of "[Some leafA, None, Some exprE]" 0 leafA]
  by (simp add: deref_def alive_def leafA_def)

text \<open>
  C6. \<open>_markStale\<close> returns on every graph: the propagation is a total function, each
  visit that does anything turns a fresh node stale, and the number of nodes it
  processes is at most the number of fresh nodes. Applied to a node that is already
  stale it returns the heap as it is and processes no node. No node is processed twice
  in one propagation; the processed nodes were fresh and are stale afterwards, and
  the flag of every other node is as before.
\<close>

theorem markStale_no_revisit:
  "(isStale h n \<longrightarrow> markStale h n = h \<and> markStale_visits h n = [])
   \<and> distinct (markStale_visits h n)
   \<and> length (markStale_visits h n) \<le> countFresh h
   \<and> (\<forall>m \<in> set (markStale_visits h n). isFresh h m \<and> isStale (markStale h n) m)
   \<and> (\<forall>m. m \<notin> set (markStale_visits h n) \<longrightarrow> isStale (markStale h n) m = isStale h m)"
proof -
  have "isStale h n \<Longrightarrow> \<not> isFresh h n" by (simp add: isFresh_iff)
  then have 1: "isStale h n \<longrightarrow> markStale h n = h \<and> markStale_visits h n = []"
    by (simp add: markStale_def markStale_visits_def markStaleVisits_Cons)
  have 2: "distinct (markStale_visits h n)"
    by (simp add: markStale_visits_def distinct_markStaleVisits)
  have 3: "length (markStale_visits h n) \<le> countFresh h"
    using markStaleVisits_count [of h "[n]"] by (simp add: markStale_visits_def)
  have 4: "\<forall>m \<in> set (markStale_visits h n). isFresh h m \<and> isStale (markStale h n) m"
    by (auto simp: markStale_visits_def markStale_eq isStale_markStaleAll_iff
        dest: markStaleVisits_fresh)
  have 5: "\<forall>m. m \<notin> set (markStale_visits h n) \<longrightarrow> isStale (markStale h n) m = isStale h m"
    by (simp add: markStale_visits_def markStale_eq isStale_markStaleAll_iff)
  from 1 2 3 4 5 show ?thesis by blast
qed

theorem markStale_no_revisit_witness:
  "isStale (markStale chain3 1) 2
   \<and> markStale (markStale chain3 1) 2 = markStale chain3 1
   \<and> markStale_visits (markStale chain3 1) 2 = []
   \<and> markStale_visits chain3 1 = [1, 2]
   \<and> countFresh chain3 = 3
   \<and> isFresh chain3 1 \<and> isStale (markStale chain3 1) 1
   \<and> isStale (markStale chain3 1) 0 = isStale chain3 0"
proof -
  have s: "isStale (markStale chain3 1) 2" by code_simp
  have v: "markStale_visits chain3 1 = [1, 2]" by code_simp
  have c: "countFresh chain3 = 3" by code_simp
  show ?thesis
    using markStale_no_revisit [of "markStale chain3 1" 2] markStale_no_revisit [of chain3 1] s v c
    by simp
qed



text \<open>
  C2, as stated: \<open>_markFresh(n)\<close> leaves the flag of every node other than \<open>n\<close> as it
  was. It fails: \<open>_markFresh\<close> runs \<open>__markStale\<close>, which marks the fresh subscribers of
  \<open>n\<close> stale.
\<close>

theorem markFresh_frame_counterexample:
  "\<not> (\<forall>h n m. m \<noteq> n \<longrightarrow> isStale (markFresh h n) m = isStale h m)"
proof
  assume "\<forall>h n m. m \<noteq> n \<longrightarrow> isStale (markFresh h n) m = isStale h m"
  then have "isStale (markFresh chain3 0) 1 = isStale chain3 1" by simp
  moreover have "isStale (markFresh chain3 0) 1" by code_simp
  moreover have "\<not> isStale chain3 1" by code_simp
  ultimately show False by simp
qed

text \<open>
  C2, amended: \<open>_markFresh(n)\<close> sets the flag of \<open>n\<close> to fresh and marks the live
  dependents of \<open>n\<close> stale. \<open>n\<close> is fresh afterwards unless it is its own dependent,
  every live subscriber of \<open>n\<close> is stale afterwards, a node other than \<open>n\<close> that is not
  a dependent of \<open>n\<close> keeps its flag, and no node other than \<open>n\<close> turns fresh.
\<close>

theorem markFresh_effect:
  "(alive h n \<and> \<not> dependent h n n \<longrightarrow> isFresh (markFresh h n) n)
   \<and> (\<forall>t \<in> set (liveSubs h n). isStale (markFresh h n) t)
   \<and> (m \<noteq> n \<and> \<not> dependent h n m \<longrightarrow> isStale (markFresh h n) m = isStale h m)
   \<and> (m \<noteq> n \<and> isStale h m \<longrightarrow> isStale (markFresh h n) m)"
proof -
  have 1: "alive h n \<and> \<not> dependent h n n \<longrightarrow> isFresh (markFresh h n) n"
    by (simp add: markFresh_self_fresh)
  have 2: "\<forall>t \<in> set (liveSubs h n). isStale (markFresh h n) t"
    by (simp add: markFresh_notifies notifies.direct)
  have 3: "m \<noteq> n \<and> \<not> dependent h n m \<longrightarrow> isStale (markFresh h n) m = isStale h m"
    using markFresh_changed_dependent [of h n m] markFresh_other_mono [of m n h] by blast
  have 4: "m \<noteq> n \<and> isStale h m \<longrightarrow> isStale (markFresh h n) m"
    by (simp add: markFresh_other_mono)
  from 1 2 3 4 show ?thesis by blast
qed


theorem markFresh_effect_witness:
  "alive chain3 1 \<and> \<not> dependent chain3 1 1 \<and> isFresh (markFresh chain3 1) 1
   \<and> isStale (markFresh chain3 1) 2
   \<and> \<not> dependent chain3 1 0 \<and> isStale (markFresh chain3 1) 0 = isStale chain3 0
   \<and> isStale blockedChain 2 \<and> isStale (markFresh blockedChain 0) 2"
proof -
  have a: "alive chain3 1" by code_simp
  have d1: "\<not> dependent chain3 1 1" using chain3_dependents_of_1 [of 1] by auto
  have d0: "\<not> dependent chain3 1 0" using chain3_dependents_of_1 [of 0] by auto
  have l: "liveSubs chain3 1 = [2]" by code_simp
  have s: "isStale blockedChain 2" by code_simp
  show ?thesis
    using a d1 d0 l s markFresh_effect [of chain3 1 0] markFresh_effect [of blockedChain 0 2]
    by simp
qed


text \<open>
  C3, as stated: a node with \<open>_cached = False\<close> (set by \<open>dontCacheMe\<close> or \<open>cached=False\<close>)
  is recomputed by every \<open>getValue\<close> and holds \<open>None\<close> afterwards. It fails when
  \<open>_cacheAlways\<close> is set: \<open>_isCached\<close> is true then whatever \<open>_cached\<close> is, and a fresh
  node that holds a value returns it without calling \<open>_calcValue\<close>.
\<close>

theorem getValue_uncached_counterexample:
  "\<not> (\<forall>cfg calc h self v h1.
        cachedOf h self = Some False \<and> calc h self = (Inr v, h1) \<and> cachedOf h1 self = Some False
        \<longrightarrow> fst (getValue cfg calc h self) = Inr v
            \<and> valOf (snd (getValue cfg calc h self)) self = None)"
proof
  assume a: "\<forall>cfg calc h self v h1.
        cachedOf h self = Some False \<and> calc h self = (Inr v, h1) \<and> cachedOf h1 self = Some False
        \<longrightarrow> fst (getValue cfg calc h self) = Inr v
            \<and> valOf (snd (getValue cfg calc h self)) self = None"
  have 1: "cachedOf uncachedHeap 0 = Some False" by code_simp
  have 2: "constCalc (NDArray [1] [9]) uncachedHeap 0 = (Inr (Some (NDArray [1] [9])), uncachedHeap)"
    by (simp add: constCalc_def)
  from a 1 2 have "fst (getValue alwaysConfig (constCalc (NDArray [1] [9])) uncachedHeap 0)
                    = Inr (Some (NDArray [1] [9]))"
    by blast
  moreover have "fst (getValue alwaysConfig (constCalc (NDArray [1] [9])) uncachedHeap 0)
                    = Inr (Some (NDArray [1] [7]))"
    by code_simp
  ultimately show False by simp
qed

text \<open>
  C3, amended: with \<open>_cacheAlways\<close> not set, every \<open>getValue\<close> of a node with
  \<open>_cached = False\<close> returns what \<open>_calcValue\<close> computes in the current heap, whatever
  the value slot holds and whether or not the node is stale, and leaves \<open>None\<close> in the
  value slot.
\<close>

theorem getValue_uncached_recomputes:
  "\<not> cacheAlways cfg \<and> cachedOf h self = Some False \<and> calc h self = (Inr v, h1)
     \<and> cachedOf h1 self = Some False
   \<longrightarrow> getValue cfg calc h self = (Inr v, markFresh (setValue_private h1 self None) self)
       \<and> valOf (snd (getValue cfg calc h self)) self = None"
proof (intro impI; elim conjE)
  assume c: "\<not> cacheAlways cfg" and h: "cachedOf h self = Some False"
    and k: "calc h self = (Inr v, h1)" and h1: "cachedOf h1 self = Some False"
  from h obtain n where n: "deref h self = Some n" "\<not> cached n"
    by (auto simp: cachedOf_def)
  from h1 obtain n1 where n1: "deref h1 self = Some n1" "\<not> cached n1"
    by (auto simp: cachedOf_def)
  have g: "getValue cfg calc h self = (Inr v, markFresh (setValue_private h1 self None) self)"
    using c n n1 k by (simp add: getValue_def isCached_def)
  moreover have "valOf (markFresh (setValue_private h1 self None) self) self = None"
    using n1 by (simp add: valOf_setValue_private alive_def)
  ultimately show "getValue cfg calc h self = (Inr v, markFresh (setValue_private h1 self None) self)
       \<and> valOf (snd (getValue cfg calc h self)) self = None"
    by simp
qed

theorem getValue_uncached_recomputes_witness:
  "\<not> cacheAlways plainConfig \<and> cachedOf uncachedHeap 0 = Some False
   \<and> valOf uncachedHeap 0 = Some (NDArray [1] [7])
   \<and> fst (getValue plainConfig (constCalc (NDArray [1] [9])) uncachedHeap 0) = Inr (Some (NDArray [1] [9]))
   \<and> valOf (snd (getValue plainConfig (constCalc (NDArray [1] [9])) uncachedHeap 0)) 0 = None"
proof -
  have 1: "\<not> cacheAlways plainConfig" by code_simp
  have 2: "cachedOf uncachedHeap 0 = Some False" by code_simp
  have 3: "valOf uncachedHeap 0 = Some (NDArray [1] [7])" by code_simp
  have 4: "constCalc (NDArray [1] [9]) uncachedHeap 0 = (Inr (Some (NDArray [1] [9])), uncachedHeap)"
    by (simp add: constCalc_def)
  have 5: "valOf (setValue_private uncachedHeap 0 None) 0 = None" by code_simp
  show ?thesis
    using 1 2 3 4 5
      getValue_uncached_recomputes [of plainConfig uncachedHeap 0 "constCalc (NDArray [1] [9])"
        "Some (NDArray [1] [9])" uncachedHeap]
    by simp
qed

text \<open>
  C4. When a recomputation is due and \<open>_calcValue\<close> raises, \<open>getValue\<close> raises the same
  error and writes nothing: the heap is the one \<open>_calcValue\<close> left, the value is not
  stored and the node is not marked fresh. A node that \<open>_calcValue\<close> left as it was is
  unchanged, and a stale node is still stale, so the next \<open>getValue\<close> recomputes.
\<close>

theorem getValue_error_atomic:
  "deref h self = Some n \<and> (stale n \<or> \<not> isCached cfg n \<or> val n = None)
     \<and> calc h self = (Inl e, h1)
   \<longrightarrow> getValue cfg calc h self = (Inl e, h1)
       \<and> (deref h1 self = Some n \<longrightarrow> deref (snd (getValue cfg calc h self)) self = Some n)
       \<and> (isStale h1 self \<longrightarrow> isStale (snd (getValue cfg calc h self)) self)"
  by (auto simp: getValue_def)

theorem getValue_error_atomic_witness:
  "isStale blockedChain 2
   \<and> getValue plainConfig failCalc blockedChain 2 = (Inl EvaluationError, blockedChain)
   \<and> isStale (snd (getValue plainConfig failCalc blockedChain 2)) 2
   \<and> deref (snd (getValue plainConfig failCalc blockedChain 2)) 2 = deref blockedChain 2
   \<and> fst (getValue plainConfig (constCalc (NDArray [1] [7])) (snd (getValue plainConfig failCalc blockedChain 2)) 2)
       = Inr (Some (NDArray [1] [7]))"
proof -
  obtain n where n: "deref blockedChain 2 = Some n" "stale n"
    by (simp add: blockedChain_eq deref_def)
  have s: "isStale blockedChain 2" using n by (simp add: isStale_def)
  have f: "failCalc blockedChain 2 = (Inl EvaluationError, blockedChain)"
    by (simp add: failCalc_def)
  have r: "fst (getValue plainConfig (constCalc (NDArray [1] [7])) blockedChain 2)
       = Inr (Some (NDArray [1] [7]))" by code_simp
  show ?thesis
    using n s f r getValue_error_atomic [of blockedChain 2 n plainConfig failCalc EvaluationError blockedChain]
    by simp
qed

text \<open>
  C9. \<open>dontCacheMe(recursive=True)\<close> clears \<open>_cached\<close> on the node and on the entries of
  its \<open>requiredVariables\<close> and on no other node, so a variable required only at depth
  two or more keeps its setting. \<open>cacheMe(recursive=True)\<close>, on a graph whose operands
  are older than their dependents, returns (within the depth \<open>self + 1\<close>) and sets
  \<open>_cached\<close> on every node reached along \<open>requiredVariables\<close>, and on no other.
\<close>

theorem cache_recursion_depth:
  "cachedOf (dontCacheMe True h self) m =
     (if alive h m \<and> (m = self \<or> m \<in> set (requiredVariablesOf h self)) then Some False
      else cachedOf h m)
   \<and> (operandsFirst h \<longrightarrow>
        (\<exists>h'. cacheMe (Suc self) True h self = Some h'
             \<and> (\<forall>m. cachedOf h' m =
                   (if alive h m \<and> required h self m then Some True else cachedOf h m))))"
proof
  show "cachedOf (dontCacheMe True h self) m =
     (if alive h m \<and> (m = self \<or> m \<in> set (requiredVariablesOf h self)) then Some False
      else cachedOf h m)"
    by (auto simp: dontCacheMe_def Let_def cachedOf_fold_dontCacheMe_flat cachedOf_modify_cached)
next
  show "operandsFirst h \<longrightarrow>
        (\<exists>h'. cacheMe (Suc self) True h self = Some h'
             \<and> (\<forall>m. cachedOf h' m =
                   (if alive h m \<and> required h self m then Some True else cachedOf h m)))"
  proof
    assume "operandsFirst h"
    from cacheMe_correct [OF this, of self "Suc self"] obtain h' where
      "cacheMe (Suc self) True h self = Some h'" "cachedAfter h (required h self) h'"
      by auto
    then show "\<exists>h'. cacheMe (Suc self) True h self = Some h'
             \<and> (\<forall>m. cachedOf h' m =
                   (if alive h m \<and> required h self m then Some True else cachedOf h m))"
      by (auto simp: cachedAfter_def)
  qed
qed

theorem cache_recursion_depth_witness:
  "required chain3 2 0 \<and> cachedOf chain3 0 = Some True
   \<and> cachedOf (dontCacheMe True chain3 2) 2 = Some False
   \<and> cachedOf (dontCacheMe True chain3 2) 1 = Some False
   \<and> cachedOf (dontCacheMe True chain3 2) 0 = Some True
   \<and> operandsFirst uncachedChain \<and> cachedOf uncachedChain 0 = Some False
   \<and> (\<exists>h'. cacheMe 3 True uncachedChain 2 = Some h' \<and> cachedOf h' 0 = Some True
          \<and> cachedOf h' 1 = Some True \<and> cachedOf h' 2 = Some True)"
proof -
  have a: "alive chain3 0" "alive chain3 1" "alive chain3 2" by code_simp+
  have r: "requiredVariablesOf chain3 2 = [1]" by code_simp
  have c: "cachedOf chain3 0 = Some True" by code_simp
  have w: "operandsFirst uncachedChain" by code_simp
  have u: "cachedOf uncachedChain 0 = Some False" by code_simp
  have ua: "alive uncachedChain 0" "alive uncachedChain 1" "alive uncachedChain 2" by code_simp+
  have d: "cachedOf (dontCacheMe True chain3 2) 2 = Some False
           \<and> cachedOf (dontCacheMe True chain3 2) 1 = Some False
           \<and> cachedOf (dontCacheMe True chain3 2) 0 = Some True"
    using a r c cache_recursion_depth [of chain3 2 2] cache_recursion_depth [of chain3 2 1]
      cache_recursion_depth [of chain3 2 0]
    by simp
  have e: "\<exists>h'. cacheMe 3 True uncachedChain 2 = Some h' \<and> cachedOf h' 0 = Some True
          \<and> cachedOf h' 1 = Some True \<and> cachedOf h' 2 = Some True"
    using w ua uncachedChain_required cache_recursion_depth [of uncachedChain 2 0]
    by (auto simp: numeral_3_eq_3)
  from chain3_required_2_0 c d w u e show ?thesis by blast
qed

text \<open>
  C7. When \<open>_BinaryOperatorVariable\<close> returns a node, the \<open>requiredVariables\<close> of that
  node are the two operands in order, \<open>[self, other]\<close>. A right-hand operand that is not
  a \<open>Variable\<close> is wrapped first: the second entry is then a newly allocated \<open>_Constant\<close>
  holding the operand's value, with no \<open>requiredVariables\<close> of its own. A unary operator
  node has the one operand.
\<close>

theorem operator_operand_list:
  "(BinaryOperatorVariable h self oper operatorClass opSh = (Inr var, h') \<longrightarrow>
      (case oper of
         Node r \<Rightarrow> var = length h \<and> requiredVariablesOf h' var = [self, r]
       | Raw a \<Rightarrow>
           var = Suc (length h) \<and> requiredVariablesOf h' var = [self, length h]
           \<and> map_option cls (deref h' (length h)) = Some ConstantC
           \<and> valOf h' (length h) = Some a
           \<and> requiredVariablesOf h' (length h) = []))
   \<and> (UnaryOperatorVariable h self operatorClass opSh = (Inr uvar, uh) \<longrightarrow>
        uvar = length h \<and> requiredVariablesOf uh uvar = [self])"
proof -
  have binary: "case oper of
         Node r \<Rightarrow> var = length h \<and> requiredVariablesOf h' var = [self, r]
       | Raw a \<Rightarrow>
           var = Suc (length h) \<and> requiredVariablesOf h' var = [self, length h]
           \<and> map_option cls (deref h' (length h)) = Some ConstantC
           \<and> valOf h' (length h) = Some a
           \<and> requiredVariablesOf h' (length h) = []"
    if b: "BinaryOperatorVariable h self oper operatorClass opSh = (Inr var, h')"
  proof (cases oper)
    case (Node r)
    with b BinaryOperatorVariable_Node_Inr [of h self r operatorClass opSh var h']
    show ?thesis by (auto simp: newOperatorVariable_requiredVariables)
  next
    case (Raw a)
    let ?k = "\<lparr>val = Some a, stale = False, cached = True, requiredVariables = [],
                subscribedVariables = [], cls = ConstantC, opShape = None\<rparr>"
    let ?h1 = "h @ [Some ?k]"
    from Raw b BinaryOperatorVariable_Raw_Inr [of h self a operatorClass opSh var h']
    obtain c sh where h': "h' = fst (newOperatorVariable ?h1 c sh [self, length h])"
      and var: "var = Suc (length h)"
      by auto
    have 1: "requiredVariablesOf h' var = [self, length h]"
      using newOperatorVariable_requiredVariables [of ?h1 c sh "[self, length h]"]
      by (simp add: h' var)
    have 2: "map_option cls (deref h' (length h)) = Some ConstantC"
      unfolding h' by (subst newOperatorVariable_frame) simp_all
    have "map_option val (deref h' (length h)) = Some (Some a)"
      unfolding h' by (subst newOperatorVariable_frame) simp_all
    then have 3: "valOf h' (length h) = Some a"
      by (auto simp: valOf_def)
    have 4: "requiredVariablesOf h' (length h) = []"
      unfolding h'
      by (subst newOperatorVariable_old_requiredVariables) (simp_all add: requiredVariablesOf_def)
    from Raw var 1 2 3 4 show ?thesis by simp
  qed
  have unary: "uvar = length h \<and> requiredVariablesOf uh uvar = [self]"
    if u: "UnaryOperatorVariable h self operatorClass opSh = (Inr uvar, uh)"
    using u UnaryOperatorVariable_Inr [of h self operatorClass opSh uvar uh]
    by (auto simp: newOperatorVariable_requiredVariables)
  from binary unary show ?thesis by blast
qed

theorem operator_operand_list_witness:
  "fst (BinaryOperatorVariable threeLeaves 0 (Node 1) None None) = Inr 3
   \<and> requiredVariablesOf (snd (BinaryOperatorVariable threeLeaves 0 (Node 1) None None)) 3 = [0, 1]
   \<and> fst (BinaryOperatorVariable threeLeaves 0 (Raw (NDArray [] [7])) None None) = Inr 4
   \<and> requiredVariablesOf (snd (BinaryOperatorVariable threeLeaves 0 (Raw (NDArray [] [7])) None None)) 4
       = [0, 3]
   \<and> map_option cls (deref (snd (BinaryOperatorVariable threeLeaves 0 (Raw (NDArray [] [7])) None None)) 3)
       = Some ConstantC
   \<and> valOf (snd (BinaryOperatorVariable threeLeaves 0 (Raw (NDArray [] [7])) None None)) 3
       = Some (NDArray [] [7])
   \<and> fst (UnaryOperatorVariable threeLeaves 0 None None) = Inr 3
   \<and> requiredVariablesOf (snd (UnaryOperatorVariable threeLeaves 0 None None)) 3 = [0]"
proof -
  have b1: "fst (BinaryOperatorVariable threeLeaves 0 (Node 1) None None) = Inr 3" by code_simp
  have b2: "fst (BinaryOperatorVariable threeLeaves 0 (Raw (NDArray [] [7])) None None) = Inr 4"
    by code_simp
  have u: "fst (UnaryOperatorVariable threeLeaves 0 None None) = Inr 3" by code_simp
  have l: "length threeLeaves = 3" by (rule threeLeaves_nodes)
  note t1 = operator_operand_list [of threeLeaves 0 "Node 1" None None 3
        "snd (BinaryOperatorVariable threeLeaves 0 (Node 1) None None)" 3
        "snd (UnaryOperatorVariable threeLeaves 0 None None)", unfolded l]
  note t2 = operator_operand_list [of threeLeaves 0 "Raw (NDArray [] [7])" None None 4
        "snd (BinaryOperatorVariable threeLeaves 0 (Raw (NDArray [] [7])) None None)" 3
        "snd (UnaryOperatorVariable threeLeaves 0 None None)", unfolded l]
  show ?thesis
    using b1 b2 u t1 t2 by (simp add: prod_eq_iff)
qed




end
